theory Spec2Isabelle
  imports Complex_Main "HOL-Library.AList" "HOL-Library.Sublist" "HOL-Library.Product_Lexorder"
begin

section \<open>The transaction queue of the faucet (lib/queue.ts)\<close>

text \<open>
  The class \<open>TransactionQueue\<close> keeps job objects that are shared by reference between
  the map \<open>jobs\<close>, the array \<open>pendingQueue\<close>, the closures of running \<open>processJob\<close>
  calls and the retry timers. The model therefore has an explicit object store
  (\<open>heap\<close>, a list of job objects, a reference being an index) and every structure
  holds references. The dead-letter map holds copies (\<open>{...job}\<close>), so it stores job
  values. A JavaScript \<open>Map\<close> is insertion-ordered, \<open>set\<close> on a present key keeps
  its place: an association list with \<open>AList.update\<close> and \<open>AList.delete\<close>. The
  \<open>Set\<close> of ids is a duplicate-free list.

  Numbers are integers (the callers pass integer literals), strings are ASCII.
  \<open>Date.now()\<close>, the job id's random suffix, \<open>Math.random()\<close> and the outcome of
  the blockchain call are inputs of the operations.
\<close>

subsection \<open>Data\<close>

datatype job_type = ETH_CLAIM | TOKEN_CLAIM

datatype job_status = pending | processing | completed | failed | retrying

record job_data =
  address :: string
  tokenAddress :: "string option"
  amount :: "string option"
  userAgent :: "string option"
  timestamp :: int

record QueueJob =
  jobId :: string
  jtype :: job_type
  jdata :: job_data
  status :: job_status
  priority :: int
  attempts :: nat
  maxAttempts :: int
  createdAt :: int
  updatedAt :: int
  processedAt :: "int option"
  completedAt :: "int option"
  error :: "string option"
  transactionHash :: "string option"
  estimatedProcessingTime :: "nat option"
  position :: "nat option"

text \<open>The argument of \<open>addJob\<close>: a job without id, status, attempts, createdAt,
  updatedAt and position.\<close>

record job_input =
  in_type :: job_type
  in_data :: job_data
  in_priority :: int
  in_maxAttempts :: int
  in_processedAt :: "int option"
  in_completedAt :: "int option"
  in_error :: "string option"
  in_transactionHash :: "string option"
  in_estimatedProcessingTime :: "nat option"

record queue_state =
  heap :: "QueueJob list"
  jobs :: "(string \<times> nat) list"
  pendingQueue :: "nat list"
  processingJobs :: "string list"
  deadLetterQueue :: "(string \<times> QueueJob) list"
  awaiting :: "nat list"
  timers :: "(nat \<times> real) list"

text \<open>\<open>awaiting\<close> holds the jobs whose \<open>processJob\<close> call is suspended at an
  \<open>await\<close>; \<open>timers\<close> holds the pending \<open>setTimeout\<close> callbacks of the retry
  branch with their delay in milliseconds.\<close>

definition maxConcurrentJobs :: nat where
  "maxConcurrentJobs = 3"

definition processingDelay :: nat where
  "processingDelay = 2000"

definition emptyQueue :: queue_state where
  "emptyQueue = \<lparr>heap = [], jobs = [], pendingQueue = [], processingJobs = [],
     deadLetterQueue = [], awaiting = [], timers = []\<rparr>"

subsection \<open>Strings\<close>

definition str_includes :: "string \<Rightarrow> string \<Rightarrow> bool" where
  "str_includes s p = sublist p s"

definition toLowerChar :: "char \<Rightarrow> char" where
  "toLowerChar c = (if c \<in> set ''ABCDEFGHIJKLMNOPQRSTUVWXYZ''
     then char_of (of_char c + (32::nat)) else c)"

definition toLowerCase :: "string \<Rightarrow> string" where
  "toLowerCase s = map toLowerChar s"

definition isHexDigit :: "char \<Rightarrow> bool" where
  "isHexDigit c = (c \<in> set ''0123456789abcdefABCDEF'')"

text \<open>The regular expression \<open>/^0x[a-fA-F0-9]{40}$/\<close>.\<close>

definition isAddress :: "string \<Rightarrow> bool" where
  "isAddress s = (length s = 42 \<and> take 2 s = ''0x'' \<and> list_all isHexDigit (drop 2 s))"

subsection \<open>Validation and error classification\<close>

definition validateJobData :: "QueueJob \<Rightarrow> string + unit" where
  "validateJobData job =
     (if address (jdata job) = [] \<or> \<not> isAddress (address (jdata job))
      then Inl ''Invalid recipient address''
      else if jtype job = TOKEN_CLAIM then
        (case tokenAddress (jdata job) of
           None \<Rightarrow> Inl ''Invalid token address''
         | Some t \<Rightarrow> if t = [] \<or> \<not> isAddress t then Inl ''Invalid token address'' else Inr ())
      else Inr ())"

definition categorizeError :: "string \<Rightarrow> string" where
  "categorizeError message =
     (if str_includes message ''Transaction submission timeout - network may be congested''
      then ''Network congestion: Transaction submission took too long. Please try again.''
      else if str_includes message ''Transaction timeout - blockchain confirmation took too long''
      then ''Transaction timeout: Blockchain confirmation took longer than expected. Your transaction may still succeed.''
      else if str_includes message ''network'' \<or> str_includes message ''connection'' \<or> str_includes message ''timeout''
      then ''Network error: '' @ message
      else if str_includes message ''insufficient funds'' \<or> str_includes message ''balance''
      then ''Insufficient funds: '' @ message
      else if str_includes message ''gas'' \<or> str_includes message ''Gas''
      then ''Gas error: '' @ message
      else if str_includes message ''nonce'' \<or> str_includes message ''Nonce''
      then ''Nonce error: '' @ message
      else if str_includes message ''revert'' \<or> str_includes message ''Revert''
      then ''Transaction reverted: '' @ message
      else if str_includes message ''rate limit'' \<or> str_includes message ''too many requests''
      then ''Rate limited: '' @ message
      else if str_includes message ''cooldown'' \<or> str_includes message ''Cooldown''
      then ''Cooldown period not met: '' @ message
      else ''Unknown error: '' @ message)"

definition nonRetryablePatterns :: "string list" where
  "nonRetryablePatterns = [''insufficient funds'', ''cooldown'', ''blacklisted'',
     ''invalid address'', ''invalid token'', ''unauthorized'', ''forbidden'', ''not supported'']"

definition retryablePatterns :: "string list" where
  "retryablePatterns = [''network'', ''connection'', ''timeout'', ''rate limit'', ''gas'',
     ''nonce'', ''temporary'']"

text \<open>The two \<open>for\<close> statements of \<open>isRetryableError\<close>, each returning at the first
  pattern found in the lower-cased message.\<close>

fun matchPatterns :: "string \<Rightarrow> string list \<Rightarrow> bool" where
  "matchPatterns message [] = False"
| "matchPatterns message (p # ps) =
     (if str_includes (toLowerCase message) p then True else matchPatterns message ps)"

definition isRetryableError :: "string \<Rightarrow> bool" where
  "isRetryableError message =
     (if matchPatterns message nonRetryablePatterns then False
      else if matchPatterns message retryablePatterns then True
      else True)"

subsection \<open>Queue positions\<close>

text \<open>\<open>updateQueuePositions\<close>: the \<open>forEach\<close> over the pending array writes
  \<open>index + 1\<close> and \<open>(index + 1) * (processingDelay / 1000)\<close> into each job object.\<close>

fun setPositions :: "nat list \<Rightarrow> nat \<Rightarrow> QueueJob list \<Rightarrow> QueueJob list" where
  "setPositions [] i h = h"
| "setPositions (r # rs) i h =
     setPositions rs (Suc i)
       (h[r := (h ! r)\<lparr>position := Some (i + 1),
          estimatedProcessingTime := Some ((i + 1) * (processingDelay div 1000))\<rparr>])"

definition updateQueuePositions :: "queue_state \<Rightarrow> queue_state" where
  "updateQueuePositions s = s\<lparr>heap := setPositions (pendingQueue s) 0 (heap s)\<rparr>"

subsection \<open>Submission and queries\<close>

definition generateJobId :: "string \<Rightarrow> string \<Rightarrow> string" where
  "generateJobId ts rnd = ''job_'' @ ts @ ''_'' @ rnd"

definition newJob :: "job_input \<Rightarrow> string \<Rightarrow> int \<Rightarrow> nat \<Rightarrow> QueueJob" where
  "newJob jobData jid now pos =
     \<lparr>jobId = jid, jtype = in_type jobData, jdata = in_data jobData, status = pending,
      priority = in_priority jobData, attempts = 0, maxAttempts = in_maxAttempts jobData,
      createdAt = now, updatedAt = now, processedAt = in_processedAt jobData,
      completedAt = in_completedAt jobData, error = in_error jobData,
      transactionHash = in_transactionHash jobData,
      estimatedProcessingTime = in_estimatedProcessingTime jobData,
      position = Some pos\<rparr>"

text \<open>\<open>addJob\<close>; \<open>ts\<close> is the decimal text of \<open>Date.now()\<close> and \<open>rnd\<close> the random
  suffix that \<open>generateJobId\<close> draws. There is no check of the payload here.\<close>

definition addJob :: "job_input \<Rightarrow> string \<Rightarrow> string \<Rightarrow> int \<Rightarrow> queue_state \<Rightarrow> string \<times> queue_state" where
  "addJob jobData ts rnd now s =
     (let jid = generateJobId ts rnd;
          job = newJob jobData jid now (length (pendingQueue s) + 1);
          r = length (heap s)
      in (jid, updateQueuePositions
            (s\<lparr>heap := heap s @ [job],
               jobs := AList.update jid r (jobs s),
               pendingQueue := pendingQueue s @ [r]\<rparr>)))"

definition getJob :: "string \<Rightarrow> queue_state \<Rightarrow> QueueJob option" where
  "getJob jid s =
     (case map_of (jobs s) jid of
        Some r \<Rightarrow> Some (heap s ! r)
      | None \<Rightarrow> map_of (deadLetterQueue s) jid)"

fun findIndex :: "('a \<Rightarrow> bool) \<Rightarrow> 'a list \<Rightarrow> nat option" where
  "findIndex P [] = None"
| "findIndex P (x # xs) = (if P x then Some 0 else map_option Suc (findIndex P xs))"

definition cancelJob :: "string \<Rightarrow> int \<Rightarrow> queue_state \<Rightarrow> bool \<times> queue_state" where
  "cancelJob jid now s =
     (case map_of (jobs s) jid of
        None \<Rightarrow> (False, s)
      | Some r \<Rightarrow>
          if status (heap s ! r) \<noteq> pending then (False, s)
          else
            let s1 = s\<lparr>heap := (heap s)[r := (heap s ! r)\<lparr>status := failed,
                         error := Some ''Cancelled by user'', updatedAt := now\<rparr>]\<rparr>
            in (case findIndex (\<lambda>j. jobId (heap s1 ! j) = jid) (pendingQueue s1) of
                  None \<Rightarrow> (True, s1)
                | Some i \<Rightarrow>
                    (True, updateQueuePositions
                       (s1\<lparr>pendingQueue :=
                          take i (pendingQueue s1) @ drop (Suc i) (pendingQueue s1)\<rparr>))))"

subsection \<open>Dead-letter store\<close>

definition deadLetterCapacity :: nat where
  "deadLetterCapacity = 100"

text \<open>\<open>moveToDeadLetterQueue\<close>: the copy is stored under the job's id; when the map
  has grown past 100 entries its first key is deleted, provided the key is truthy
  (a non-empty string).\<close>

definition moveToDeadLetterQueue :: "nat \<Rightarrow> int \<Rightarrow> queue_state \<Rightarrow> queue_state" where
  "moveToDeadLetterQueue r now s =
     (let job = heap s ! r;
          d = AList.update (jobId job) (job\<lparr>status := failed, updatedAt := now\<rparr>)
                (deadLetterQueue s)
      in s\<lparr>deadLetterQueue :=
            (if length d > deadLetterCapacity then
               (case d of
                  [] \<Rightarrow> d
                | (oldestKey, _) # _ \<Rightarrow> if oldestKey \<noteq> [] then AList.delete oldestKey d else d)
             else d)\<rparr>)"

definition getDeadLetterQueue :: "queue_state \<Rightarrow> QueueJob list" where
  "getDeadLetterQueue s = map snd (deadLetterQueue s)"

definition retryFailedJob :: "string \<Rightarrow> string \<Rightarrow> string \<Rightarrow> int \<Rightarrow> queue_state \<Rightarrow> bool \<times> queue_state" where
  "retryFailedJob jid ts rnd now s =
     (case map_of (deadLetterQueue s) jid of
        None \<Rightarrow> (False, s)
      | Some failedJob \<Rightarrow>
          let retryJob = failedJob\<lparr>jobId := generateJobId ts rnd, status := pending,
                attempts := 0, createdAt := now, updatedAt := now, error := None,
                processedAt := None, completedAt := None, transactionHash := None\<rparr>;
              r = length (heap s);
              s1 = updateQueuePositions
                     (s\<lparr>heap := heap s @ [retryJob],
                        jobs := AList.update (jobId retryJob) r (jobs s),
                        pendingQueue := pendingQueue s @ [r]\<rparr>)
          in (True, s1\<lparr>deadLetterQueue := AList.delete jid (deadLetterQueue s1)\<rparr>))"

subsection \<open>Executing a job\<close>

text \<open>The delay of the retry branch: \<open>Math.min(1000 * Math.pow(2, job.attempts), 30000)\<close>
  plus the jitter \<open>Math.random() * 1000\<close>, which is an input.\<close>

definition backoffDelay :: "nat \<Rightarrow> real \<Rightarrow> real" where
  "backoffDelay n jitter = min (1000 * 2 ^ n) 30000 + jitter"

text \<open>The \<open>catch\<close> block of \<open>processJob\<close>; \<open>message\<close> is
  \<open>error.message || error.toString()\<close>. One callback of the event loop has one clock
  value \<open>now\<close>, which stands for each \<open>Date.now()\<close> read during it. The permanent
  branch reads the clock twice, for \<open>job.updatedAt\<close> and again inside
  \<open>moveToDeadLetterQueue\<close> for the copy; in the running program the second read can be
  later than the first, so the \<open>updatedAt\<close> of the copy need not be the one of the job
  object. The statements about dead-lettered jobs below speak of the id, the status and
  the attempts counter of the copy only.\<close>

definition handleFailure :: "nat \<Rightarrow> string \<Rightarrow> int \<Rightarrow> real \<Rightarrow> queue_state \<Rightarrow> queue_state" where
  "handleFailure r message now jitter s =
     (let job = (heap s ! r)\<lparr>error := Some (categorizeError message)\<rparr>;
          isRetryable = isRetryableError message
      in if \<not> isRetryable \<or> int (attempts job) \<ge> maxAttempts job then
           moveToDeadLetterQueue r now
             (s\<lparr>heap := (heap s)[r := job\<lparr>status := failed, updatedAt := now\<rparr>]\<rparr>)
         else
           s\<lparr>heap := (heap s)[r := job\<lparr>status := retrying, updatedAt := now\<rparr>],
             timers := timers s @ [(r, backoffDelay (attempts job) jitter)]\<rparr>)"

text \<open>The \<open>finally\<close> block.\<close>

definition finishJob :: "nat \<Rightarrow> queue_state \<Rightarrow> queue_state" where
  "finishJob r s = s\<lparr>processingJobs := removeAll (jobId (heap s ! r)) (processingJobs s)\<rparr>"

text \<open>\<open>processJob\<close> up to its first \<open>await\<close>: the guard, the bookkeeping, the
  validation. A job that fails validation runs the \<open>catch\<close> and \<open>finally\<close> blocks at
  once; any other job is left suspended in \<open>awaiting\<close>.\<close>

definition processJob :: "nat \<Rightarrow> int \<Rightarrow> real \<Rightarrow> queue_state \<Rightarrow> queue_state" where
  "processJob r now jitter s =
     (if jobId (heap s ! r) \<in> set (processingJobs s) then s
      else
        let job = heap s ! r;
            s1 = s\<lparr>processingJobs := processingJobs s @ [jobId job],
                   heap := (heap s)[r := job\<lparr>status := processing, processedAt := Some now,
                      updatedAt := now, attempts := attempts job + 1\<rparr>]\<rparr>
        in (case validateJobData (heap s1 ! r) of
              Inl message \<Rightarrow> finishJob r (handleFailure r message now jitter s1)
            | Inr _ \<Rightarrow> s1\<lparr>awaiting := awaiting s1 @ [r]\<rparr>))"

text \<open>What the awaited part delivers: a transaction hash, or a thrown error (from the
  dynamic import, the blockchain service or the 60 second timeout).\<close>

datatype outcome = Submitted string | Threw string

definition resumeJob :: "nat \<Rightarrow> outcome \<Rightarrow> int \<Rightarrow> real \<Rightarrow> queue_state \<Rightarrow> queue_state" where
  "resumeJob r out now jitter s =
     (let job = heap s ! r;
          s0 = s\<lparr>awaiting := remove1 r (awaiting s)\<rparr>;
          result =
            (case out of
               Threw m \<Rightarrow> Threw m
             | Submitted tx \<Rightarrow>
                 if jtype job = ETH_CLAIM then Submitted tx
                 else if jtype job = TOKEN_CLAIM \<and> tokenAddress (jdata job) \<noteq> None
                         \<and> tokenAddress (jdata job) \<noteq> Some [] then Submitted tx
                 else Threw ''Invalid job type or missing token address'')
      in finishJob r
           (case result of
              Submitted tx \<Rightarrow>
                s0\<lparr>heap := (heap s0)[r := job\<lparr>status := completed, transactionHash := Some tx,
                      completedAt := Some now, updatedAt := now\<rparr>]\<rparr>
            | Threw m \<Rightarrow> handleFailure r m now jitter s0))"

text \<open>The \<open>setTimeout\<close> callback of the retry branch.\<close>

definition retryTimer :: "nat \<Rightarrow> queue_state \<Rightarrow> queue_state" where
  "retryTimer r s =
     (let s0 = s\<lparr>timers := AList.delete_aux r (timers s)\<rparr>
      in if status (heap s0 ! r) = retrying then
           updateQueuePositions
             (s0\<lparr>heap := (heap s0)[r := (heap s0 ! r)\<lparr>status := pending\<rparr>],
                 pendingQueue := pendingQueue s0 @ [r]\<rparr>)
         else s0)"

subsection \<open>The dispatch pass\<close>

fun processJobs :: "nat list \<Rightarrow> int \<Rightarrow> (nat \<Rightarrow> real) \<Rightarrow> queue_state \<Rightarrow> queue_state" where
  "processJobs [] now jit s = s"
| "processJobs (r # rs) now jit s =
     processJobs rs now (\<lambda>i. jit (Suc i)) (processJob r now (jit 0) s)"

text \<open>The comparator of the sort is the lexicographic order on
  \<open>(priority, createdAt)\<close>; \<open>Array.prototype.sort\<close> is stable, as \<open>sort_key\<close> is.\<close>

definition sortKey :: "QueueJob list \<Rightarrow> nat \<Rightarrow> int \<times> int" where
  "sortKey h r = (priority (h ! r), createdAt (h ! r))"

definition jobsToProcess :: "queue_state \<Rightarrow> nat list" where
  "jobsToProcess s =
     take (maxConcurrentJobs - length (processingJobs s))
       (sort_key (sortKey (heap s)) (pendingQueue s))"

definition processNextJobs :: "int \<Rightarrow> (nat \<Rightarrow> real) \<Rightarrow> queue_state \<Rightarrow> queue_state" where
  "processNextJobs now jit s =
     (if length (processingJobs s) \<ge> maxConcurrentJobs then s
      else
        let sorted = sort_key (sortKey (heap s)) (pendingQueue s);
            k = maxConcurrentJobs - length (processingJobs s);
            s1 = s\<lparr>pendingQueue := drop k sorted\<rparr>
        in updateQueuePositions (processJobs (take k sorted) now jit s1))"

subsection \<open>Cleanup\<close>

definition isTerminal :: "QueueJob \<Rightarrow> bool" where
  "isTerminal job = (status job = completed \<or> status job = failed)"

definition cleanupOldJobs :: "int \<Rightarrow> queue_state \<Rightarrow> queue_state" where
  "cleanupOldJobs now s =
     (let cutoffTime = now - 24 * 60 * 60 * 1000
      in s\<lparr>jobs := filter (\<lambda>(jid, r). \<not> (isTerminal (heap s ! r)
                                         \<and> updatedAt (heap s ! r) < cutoffTime)) (jobs s)\<rparr>)"

definition getJobsByAddress :: "string \<Rightarrow> queue_state \<Rightarrow> nat list" where
  "getJobsByAddress addr s =
     filter (\<lambda>r. toLowerCase (address (jdata (heap s ! r))) = toLowerCase addr)
       (map snd (jobs s))"

definition clearUserJobs :: "string \<Rightarrow> queue_state \<Rightarrow> nat \<times> queue_state" where
  "clearUserJobs addr s =
     (let cleared = filter (\<lambda>r. isTerminal (heap s ! r)) (getJobsByAddress addr s);
          dead = filter (\<lambda>(jid, job). toLowerCase (address (jdata job)) = toLowerCase addr)
                   (deadLetterQueue s)
      in (length cleared + length dead,
          s\<lparr>jobs := fold (\<lambda>r. AList.delete (jobId (heap s ! r))) cleared (jobs s),
            deadLetterQueue := fold (\<lambda>(jid, job). AList.delete jid) dead (deadLetterQueue s)\<rparr>))"

subsection \<open>Runs of the queue\<close>

text \<open>One event is one callback of the event loop. An event is refused (\<open>None\<close>) when
  it cannot happen: a job id that \<open>generateJobId\<close> has issued before, an outcome for a
  job that is not awaited, a timer that is not pending, a jitter outside
  \<open>[0, 1000)\<close>. \<open>destroy\<close> ends the life of the queue and is not an event.\<close>

datatype event =
    EvAddJob job_input string string int
  | EvTick int "nat \<Rightarrow> real"
  | EvOutcome nat outcome int real
  | EvRetryTimer nat
  | EvCancel string int
  | EvRetryFailed string string string int
  | EvCleanup int
  | EvClearUser string

definition freshId :: "string \<Rightarrow> queue_state \<Rightarrow> bool" where
  "freshId jid s = (jid \<notin> set (map jobId (heap s)))"

definition jitterOk :: "real \<Rightarrow> bool" where
  "jitterOk j = (0 \<le> j \<and> j < 1000)"

fun step :: "event \<Rightarrow> queue_state \<Rightarrow> queue_state option" where
  "step (EvAddJob jobData ts rnd now) s =
     (if freshId (generateJobId ts rnd) s then Some (snd (addJob jobData ts rnd now s)) else None)"
| "step (EvTick now jit) s =
     (if list_all (\<lambda>i. jitterOk (jit i)) [0..<maxConcurrentJobs]
      then Some (processNextJobs now jit s) else None)"
| "step (EvOutcome r out now jitter) s =
     (if r \<in> set (awaiting s) \<and> jitterOk jitter then Some (resumeJob r out now jitter s) else None)"
| "step (EvRetryTimer r) s =
     (if r \<in> fst ` set (timers s) then Some (retryTimer r s) else None)"
| "step (EvCancel jid now) s = Some (snd (cancelJob jid now s))"
| "step (EvRetryFailed jid ts rnd now) s =
     (if freshId (generateJobId ts rnd) s then Some (snd (retryFailedJob jid ts rnd now s)) else None)"
| "step (EvCleanup now) s = Some (cleanupOldJobs now s)"
| "step (EvClearUser addr) s = Some (snd (clearUserJobs addr s))"

fun run :: "event list \<Rightarrow> queue_state \<Rightarrow> queue_state option" where
  "run [] s = Some s"
| "run (e # es) s = (case step e s of None \<Rightarrow> None | Some s' \<Rightarrow> run es s')"

subsection \<open>Invariants of the queue\<close>

text \<open>Every reference held by a structure points into the object store.\<close>

definition refsValid :: "queue_state \<Rightarrow> bool" where
  "refsValid s \<longleftrightarrow>
     (\<forall>r\<in>set (pendingQueue s). r < length (heap s)) \<and>
     (\<forall>r\<in>set (awaiting s). r < length (heap s)) \<and>
     (\<forall>t\<in>set (timers s). fst t < length (heap s)) \<and>
     (\<forall>e\<in>set (jobs s). snd e < length (heap s))"

text \<open>Job ids are pairwise different and never the empty string.\<close>

definition idsInv :: "queue_state \<Rightarrow> bool" where
  "idsInv s \<longleftrightarrow> distinct (map jobId (heap s)) \<and> [] \<notin> set (map jobId (heap s))"

definition pendingInv :: "queue_state \<Rightarrow> bool" where
  "pendingInv s \<longleftrightarrow>
     distinct (pendingQueue s) \<and> (\<forall>r\<in>set (pendingQueue s). status (heap s ! r) = pending)"

text \<open>The in-flight set holds exactly the ids of the suspended \<open>processJob\<close> calls.\<close>

definition awaitingInv :: "queue_state \<Rightarrow> bool" where
  "awaitingInv s \<longleftrightarrow>
     distinct (awaiting s) \<and> (\<forall>r\<in>set (awaiting s). status (heap s ! r) = processing) \<and>
     distinct (processingJobs s) \<and>
     set (processingJobs s) = (\<lambda>r. jobId (heap s ! r)) ` set (awaiting s)"

text \<open>The main store maps an id to the object carrying it, and holds every job that is
  pending, processing or retrying.\<close>

definition storeInv :: "queue_state \<Rightarrow> bool" where
  "storeInv s \<longleftrightarrow>
     (\<forall>e\<in>set (jobs s). jobId (heap s ! snd e) = fst e) \<and>
     (\<forall>r<length (heap s). status (heap s ! r) \<in> {pending, processing, retrying} \<longrightarrow>
        map_of (jobs s) (jobId (heap s ! r)) = Some r)"

definition attemptsInv :: "queue_state \<Rightarrow> bool" where
  "attemptsInv s \<longleftrightarrow>
     (\<forall>r<length (heap s). 1 \<le> maxAttempts (heap s ! r) \<longrightarrow>
        int (attempts (heap s ! r)) \<le> maxAttempts (heap s ! r) \<and>
        (status (heap s ! r) \<in> {pending, retrying} \<longrightarrow>
           int (attempts (heap s ! r)) < maxAttempts (heap s ! r)))"

definition deadLetterInv :: "queue_state \<Rightarrow> bool" where
  "deadLetterInv s \<longleftrightarrow>
     distinct (map fst (deadLetterQueue s)) \<and>
     length (deadLetterQueue s) \<le> deadLetterCapacity \<and>
     (\<forall>e\<in>set (deadLetterQueue s). fst e \<noteq> [] \<and> jobId (snd e) = fst e \<and> status (snd e) = failed)"

text \<open>Every id in the dead-letter store is the id of a job object whose status is
  \<open>failed\<close>.\<close>

definition deadIdsInv :: "queue_state \<Rightarrow> bool" where
  "deadIdsInv s \<longleftrightarrow>
     (\<forall>e\<in>set (deadLetterQueue s).
        \<exists>x<length (heap s). jobId (heap s ! x) = fst e \<and> status (heap s ! x) = failed)"

definition coreInv :: "queue_state \<Rightarrow> bool" where
  "coreInv s \<longleftrightarrow>
     refsValid s \<and> idsInv s \<and> pendingInv s \<and> awaitingInv s \<and> storeInv s \<and>
     attemptsInv s \<and> deadLetterInv s \<and> deadIdsInv s"

definition positionsInv :: "queue_state \<Rightarrow> bool" where
  "positionsInv s \<longleftrightarrow>
     (\<forall>i<length (pendingQueue s). position (heap s ! (pendingQueue s ! i)) = Some (i + 1))"

subsection \<open>Example inputs\<close>

definition exInput :: job_input where
  "exInput = \<lparr>in_type = ETH_CLAIM,
     in_data = \<lparr>address = ''0x00000000000000000000000000000000000000a1'', tokenAddress = None,
       amount = None, userAgent = None, timestamp = 5\<rparr>,
     in_priority = 2, in_maxAttempts = 3, in_processedAt = None, in_completedAt = None,
     in_error = None, in_transactionHash = None, in_estimatedProcessingTime = None\<rparr>"

text \<open>One job submitted and dispatched, waiting for the blockchain service.\<close>

definition exDispatched :: queue_state where
  "exDispatched = the (run [EvAddJob exInput ''1'' ''a'' 1, EvTick 3 (\<lambda>_. 0)] emptyQueue)"

text \<open>The same job after the service has refused it for good.\<close>

definition exDead :: queue_state where
  "exDead = the (run [EvAddJob exInput ''1'' ''a'' 1, EvTick 3 (\<lambda>_. 0),
      EvOutcome 0 (Threw ''insufficient funds for gas'') 4 0] emptyQueue)"

text \<open>Four jobs submitted and one dispatch pass; then the first job succeeds.\<close>

definition exFour :: "event list" where
  "exFour = [EvAddJob exInput ''1'' ''a'' 1, EvAddJob exInput ''2'' ''b'' 2,
     EvAddJob exInput ''3'' ''c'' 3, EvAddJob exInput ''4'' ''d'' 4, EvTick 5 (\<lambda>_. 0)]"

definition exBusy :: queue_state where
  "exBusy = the (run exFour emptyQueue)"

definition exFreed :: queue_state where
  "exFreed = the (run (exFour @ [EvOutcome 0 (Submitted ''0xabc'') 6 0]) emptyQueue)"

text \<open>A full dead-letter store and one more job object.\<close>

definition exKey :: "nat \<Rightarrow> string" where
  "exKey i = generateJobId (replicate (Suc i) CHR ''1'') ''a''"

definition exFullDead :: queue_state where
  "exFullDead = emptyQueue\<lparr>heap := [newJob exInput ''job_new_b'' 7 1],
     deadLetterQueue := map (\<lambda>i. (exKey i, (newJob exInput (exKey i) 0 1)\<lparr>status := failed\<rparr>)) [0..<100]\<rparr>"

text \<open>A job with three allowed attempts whose submission times out three times.\<close>

definition exTwoTimeouts :: "event list" where
  "exTwoTimeouts = [EvAddJob exInput ''1'' ''a'' 1,
     EvTick 2 (\<lambda>_. 0), EvOutcome 0 (Threw ''network timeout'') 3 0, EvRetryTimer 0,
     EvTick 4 (\<lambda>_. 0), EvOutcome 0 (Threw ''network timeout'') 5 0, EvRetryTimer 0]"

definition exSecondRetry :: queue_state where
  "exSecondRetry = the (run exTwoTimeouts emptyQueue)"

definition exLastAttempt :: queue_state where
  "exLastAttempt = the (run (exTwoTimeouts @ [EvTick 6 (\<lambda>_. 0)]) emptyQueue)"

text \<open>A submission whose recipient is not an address, and the same with a single
  attempt allowed.\<close>

definition exBadInput :: job_input where
  "exBadInput = exInput\<lparr>in_data := (in_data exInput)\<lparr>address := ''not-an-address''\<rparr>\<rparr>"

definition exBadOnce :: job_input where
  "exBadOnce = exBadInput\<lparr>in_maxAttempts := 1\<rparr>"

definition exBadQueued :: queue_state where
  "exBadQueued = the (run [EvAddJob exBadOnce ''1'' ''a'' 1] emptyQueue)"



definition exBadSubmitted :: queue_state where
  "exBadSubmitted = snd (addJob exBadInput ''1'' ''a'' 1 emptyQueue)"

text \<open>One job submitted and still pending.\<close>

definition exQueued :: queue_state where
  "exQueued = the (run [EvAddJob exInput ''1'' ''a'' 1] emptyQueue)"
section \<open>Auxiliary facts\<close>

lemma proj_update:
  "(\<And>y. p (f y) = p y) \<Longrightarrow> p (h[r := f (h ! r)] ! x) = p (h ! x)"
  by (cases "x = r"; cases "r < length h") (simp_all add: list_update_beyond)

lemma setPositions_length [simp]: "length (setPositions rs i h) = length h"
  by (induction rs i h rule: setPositions.induct) simp_all

lemma setPositions_proj:
  assumes "\<And>y a b. p (y\<lparr>position := a, estimatedProcessingTime := b\<rparr>) = p y"
  shows "p (setPositions rs i h ! x) = p (h ! x)"
proof (induction rs i h rule: setPositions.induct)
  case (1 i h)
  then show ?case by simp
next
  case (2 r rs i h)
  have "p (h[r := (h ! r)\<lparr>position := Some (i + 1),
          estimatedProcessingTime := Some ((i + 1) * (processingDelay div 1000))\<rparr>] ! x) = p (h ! x)"
    by (rule proj_update) (rule assms)
  with 2 show ?case by simp
qed

lemma setPositions_jobId [simp]: "jobId (setPositions rs i h ! x) = jobId (h ! x)"
  by (rule setPositions_proj) simp

lemma setPositions_status [simp]: "status (setPositions rs i h ! x) = status (h ! x)"
  by (rule setPositions_proj) simp

lemma setPositions_attempts [simp]: "attempts (setPositions rs i h ! x) = attempts (h ! x)"
  by (rule setPositions_proj) simp

lemma setPositions_maxAttempts [simp]: "maxAttempts (setPositions rs i h ! x) = maxAttempts (h ! x)"
  by (rule setPositions_proj) simp

lemma setPositions_sortKey [simp]: "sortKey (setPositions rs i h) x = sortKey h x"
  unfolding sortKey_def
  using setPositions_proj [of "\<lambda>j. (priority j, createdAt j)" rs i h x] by simp

lemma setPositions_map_jobId [simp]: "map jobId (setPositions rs i h) = map jobId h"
  by (rule nth_equalityI) simp_all

lemma setPositions_set_jobId: "j \<in> set (setPositions rs i h) \<Longrightarrow> \<exists>j'\<in>set h. jobId j' = jobId j"
  by (metis (no_types, lifting) image_iff list.set_map setPositions_map_jobId)

lemma setPositions_other: "x \<notin> set rs \<Longrightarrow> setPositions rs i h ! x = h ! x"
  by (induction rs i h rule: setPositions.induct) simp_all

lemma setPositions_position:
  "distinct rs \<Longrightarrow> \<forall>r\<in>set rs. r < length h \<Longrightarrow> k < length rs \<Longrightarrow>
   position (setPositions rs i h ! (rs ! k)) = Some (i + k + 1)"
proof (induction rs i h arbitrary: k rule: setPositions.induct)
  case (1 i h)
  then show ?case by simp
next
  case (2 r rs i h)
  let ?h = "h[r := (h ! r)\<lparr>position := Some (i + 1),
          estimatedProcessingTime := Some ((i + 1) * (processingDelay div 1000))\<rparr>]"
  show ?case
  proof (cases k)
    case 0
    have "r \<notin> set rs" using 2 by simp
    then have "position (setPositions rs (Suc i) ?h ! r) = position (?h ! r)"
      by (simp add: setPositions_other)
    then show ?thesis using 0 2 by simp
  next
    case (Suc k')
    then show ?thesis using 2 by simp
  qed
qed

lemma updateQueuePositions_simps [simp]:
  "jobs (updateQueuePositions s) = jobs s"
  "pendingQueue (updateQueuePositions s) = pendingQueue s"
  "processingJobs (updateQueuePositions s) = processingJobs s"
  "deadLetterQueue (updateQueuePositions s) = deadLetterQueue s"
  "awaiting (updateQueuePositions s) = awaiting s"
  "timers (updateQueuePositions s) = timers s"
  "length (heap (updateQueuePositions s)) = length (heap s)"
  "jobId (heap (updateQueuePositions s) ! x) = jobId (heap s ! x)"
  "status (heap (updateQueuePositions s) ! x) = status (heap s ! x)"
  "attempts (heap (updateQueuePositions s) ! x) = attempts (heap s ! x)"
  "maxAttempts (heap (updateQueuePositions s) ! x) = maxAttempts (heap s ! x)"
  "map jobId (heap (updateQueuePositions s)) = map jobId (heap s)"
  by (simp_all add: updateQueuePositions_def)

lemmas inv_defs = coreInv_def refsValid_def idsInv_def pendingInv_def awaitingInv_def
  storeInv_def attemptsInv_def deadLetterInv_def deadIdsInv_def

lemma updateQueuePositions_coreInv [simp]: "coreInv (updateQueuePositions s) = coreInv s"
  unfolding inv_defs by simp

lemma updateQueuePositions_positionsInv:
  "distinct (pendingQueue s) \<Longrightarrow> \<forall>r\<in>set (pendingQueue s). r < length (heap s) \<Longrightarrow>
   positionsInv (updateQueuePositions s)"
  unfolding positionsInv_def
  by (simp add: updateQueuePositions_def setPositions_position)

lemma set_update_cases: "e \<in> set (AList.update k v al) \<Longrightarrow> e = (k, v) \<or> e \<in> set al"
  by (induction al) (auto split: if_splits)

lemma update_fresh_key: "k \<notin> fst ` set al \<Longrightarrow> AList.update k v al = al @ [(k, v)]"
  by (induction al) auto

lemma generateJobId_nonempty [simp]: "generateJobId ts rnd \<noteq> []" "[] \<noteq> generateJobId ts rnd"
  by (simp_all add: generateJobId_def)

lemma addJob_simps [simp]:
  "fst (addJob jd ts rnd now s) = generateJobId ts rnd"
  "jobs (snd (addJob jd ts rnd now s)) = AList.update (generateJobId ts rnd) (length (heap s)) (jobs s)"
  "pendingQueue (snd (addJob jd ts rnd now s)) = pendingQueue s @ [length (heap s)]"
  "processingJobs (snd (addJob jd ts rnd now s)) = processingJobs s"
  "deadLetterQueue (snd (addJob jd ts rnd now s)) = deadLetterQueue s"
  "awaiting (snd (addJob jd ts rnd now s)) = awaiting s"
  "timers (snd (addJob jd ts rnd now s)) = timers s"
  "length (heap (snd (addJob jd ts rnd now s))) = Suc (length (heap s))"
  "map jobId (heap (snd (addJob jd ts rnd now s))) = map jobId (heap s) @ [generateJobId ts rnd]"
  by (simp_all add: addJob_def Let_def newJob_def)

lemma addJob_heap_old:
  assumes "x < length (heap s)"
  shows "jobId (heap (snd (addJob jd ts rnd now s)) ! x) = jobId (heap s ! x)"
    and "status (heap (snd (addJob jd ts rnd now s)) ! x) = status (heap s ! x)"
    and "attempts (heap (snd (addJob jd ts rnd now s)) ! x) = attempts (heap s ! x)"
    and "maxAttempts (heap (snd (addJob jd ts rnd now s)) ! x) = maxAttempts (heap s ! x)"
  using assms by (simp_all add: addJob_def Let_def nth_append)

lemma addJob_heap_new:
  "jobId (heap (snd (addJob jd ts rnd now s)) ! length (heap s)) = generateJobId ts rnd"
  "status (heap (snd (addJob jd ts rnd now s)) ! length (heap s)) = pending"
  "attempts (heap (snd (addJob jd ts rnd now s)) ! length (heap s)) = 0"
  by (simp_all add: addJob_def Let_def newJob_def)

lemma ids_inj:
  "distinct (map jobId h) \<Longrightarrow> x < length h \<Longrightarrow> y < length h \<Longrightarrow> jobId (h ! x) = jobId (h ! y) \<Longrightarrow> x = y"
  by (metis length_map nth_eq_iff_index_eq nth_map)

lemma map_jobId_update: "jobId j' = jobId (h ! r) \<Longrightarrow> map jobId (h[r := j']) = map jobId h"
  by (cases "r < length h") (auto intro!: nth_equalityI simp: nth_list_update)

lemma coreInv_update_obj:
  assumes inv: "coreInv s" and r: "r < length (heap s)"
    and jid: "jobId j' = jobId (heap s ! r)"
    and pq: "r \<in> set (pendingQueue s) \<Longrightarrow> status j' = pending"
    and aw: "r \<in> set (awaiting s) \<Longrightarrow> status j' = processing"
    and live: "status j' \<in> {pending, processing, retrying} \<Longrightarrow>
               status (heap s ! r) \<in> {pending, processing, retrying}"
    and att: "1 \<le> maxAttempts j' \<Longrightarrow> int (attempts j') \<le> maxAttempts j' \<and>
               (status j' \<in> {pending, retrying} \<longrightarrow> int (attempts j') < maxAttempts j')"
    and keep: "status (heap s ! r) = failed \<Longrightarrow> status j' = failed"
  shows "coreInv (s\<lparr>heap := (heap s)[r := j']\<rparr>)"
proof -
  let ?s' = "s\<lparr>heap := (heap s)[r := j']\<rparr>"
  have nth: "(heap s)[r := j'] ! x = (if x = r then j' else heap s ! x)" for x
    using r by (simp add: nth_list_update)
  have ids: "jobId ((heap s)[r := j'] ! x) = jobId (heap s ! x)" for x
    using jid by (simp add: nth)
  have st: "status ((heap s)[r := j'] ! x) = (if x = r then status j' else status (heap s ! x))" for x
    by (simp add: nth)
  have at: "attempts ((heap s)[r := j'] ! x) = (if x = r then attempts j' else attempts (heap s ! x))"
    and mx: "maxAttempts ((heap s)[r := j'] ! x) = (if x = r then maxAttempts j' else maxAttempts (heap s ! x))" for x
    by (simp_all add: nth)
  have "refsValid ?s'"
    using inv unfolding coreInv_def refsValid_def by simp
  moreover have "idsInv ?s'"
    using inv jid unfolding coreInv_def idsInv_def by (simp add: map_jobId_update)
  moreover have "pendingInv ?s'"
    using inv pq unfolding coreInv_def pendingInv_def by (simp add: st)
  moreover have "awaitingInv ?s'"
    using inv aw unfolding coreInv_def awaitingInv_def by (simp add: st ids)
  moreover have "storeInv ?s'"
    using inv live unfolding coreInv_def storeInv_def by (simp add: st ids del: insert_iff)
  moreover have "attemptsInv ?s'"
    using inv att unfolding coreInv_def attemptsInv_def by (simp add: st at mx del: insert_iff)
  moreover have "deadLetterInv ?s'"
    using inv unfolding coreInv_def deadLetterInv_def by simp
  moreover have "deadIdsInv ?s'"
  proof -
    have "\<exists>x<length (heap s). jobId ((heap s)[r := j'] ! x) = fst e \<and>
        status ((heap s)[r := j'] ! x) = failed" if "e \<in> set (deadLetterQueue s)" for e
    proof -
      have "deadIdsInv s"
        using inv unfolding coreInv_def by simp
      then have "\<exists>x<length (heap s). jobId (heap s ! x) = fst e \<and> status (heap s ! x) = failed"
        using that unfolding deadIdsInv_def by (rule bspec)
      then obtain x where x: "x < length (heap s)" "jobId (heap s ! x) = fst e" "status (heap s ! x) = failed"
        by auto
      have "status ((heap s)[r := j'] ! x) = failed"
        using x(3) keep by (cases "x = r") (simp_all add: st)
      moreover have "jobId ((heap s)[r := j'] ! x) = fst e"
        using x(2) by (simp add: ids)
      ultimately show ?thesis
        using x(1) by (intro exI [of _ x]) simp
    qed
    then show ?thesis
      unfolding deadIdsInv_def by simp
  qed
  ultimately show ?thesis
    unfolding coreInv_def by simp
qed

lemma deadIdsInv_subset:
  "deadIdsInv s \<Longrightarrow> set d \<subseteq> set (deadLetterQueue s) \<Longrightarrow> deadIdsInv (s\<lparr>deadLetterQueue := d\<rparr>)"
  unfolding deadIdsInv_def by auto

lemma coreInv_timers:
  "coreInv s \<Longrightarrow> \<forall>t\<in>set tms. fst t < length (heap s) \<Longrightarrow> coreInv (s\<lparr>timers := tms\<rparr>)"
  unfolding inv_defs by simp

lemma coreInv_deadLetter:
  "coreInv s \<Longrightarrow> deadLetterInv (s\<lparr>deadLetterQueue := d\<rparr>) \<Longrightarrow>
   deadIdsInv (s\<lparr>deadLetterQueue := d\<rparr>) \<Longrightarrow> coreInv (s\<lparr>deadLetterQueue := d\<rparr>)"
  unfolding inv_defs by simp

lemma coreInv_flight_add:
  assumes "coreInv s" "r < length (heap s)" "status (heap s ! r) = processing" "r \<notin> set (awaiting s)"
  shows "coreInv (s\<lparr>processingJobs := processingJobs s @ [jobId (heap s ! r)],
                     awaiting := awaiting s @ [r]\<rparr>)"
proof -
  have "jobId (heap s ! r) \<notin> set (processingJobs s)"
  proof
    assume "jobId (heap s ! r) \<in> set (processingJobs s)"
    then obtain x where x: "x \<in> set (awaiting s)" "jobId (heap s ! x) = jobId (heap s ! r)"
      using assms(1) unfolding coreInv_def awaitingInv_def by auto
    then have "x < length (heap s)"
      using assms(1) unfolding coreInv_def refsValid_def by simp
    then have "x = r"
      using assms(1,2) x(2) unfolding coreInv_def idsInv_def by (meson ids_inj)
    then show False using x(1) assms(4) by simp
  qed
  then show ?thesis
    using assms unfolding inv_defs by simp
qed

lemma coreInv_flight_remove:
  assumes "coreInv s" "r \<in> set (awaiting s)"
  shows "coreInv (s\<lparr>awaiting := remove1 r (awaiting s),
                     processingJobs := removeAll (jobId (heap s ! r)) (processingJobs s)\<rparr>)"
proof -
  have valid: "\<forall>x\<in>set (awaiting s). x < length (heap s)"
    using assms(1) unfolding coreInv_def refsValid_def by simp
  have inj: "jobId (heap s ! x) = jobId (heap s ! r) \<Longrightarrow> x = r" if "x \<in> set (awaiting s)" for x
    using assms valid that unfolding coreInv_def idsInv_def by (meson ids_inj)
  have "(\<lambda>x. jobId (heap s ! x)) ` set (awaiting s) - {jobId (heap s ! r)}
      = (\<lambda>x. jobId (heap s ! x)) ` (set (awaiting s) - {r})"
    using inj by auto
  then show ?thesis
    using assms unfolding inv_defs by (simp add: distinct_removeAll)
qed

lemma coreInv_pending_shrink:
  "coreInv s \<Longrightarrow> distinct q \<Longrightarrow> set q \<subseteq> set (pendingQueue s) \<Longrightarrow> coreInv (s\<lparr>pendingQueue := q\<rparr>)"
  unfolding inv_defs by auto

lemma coreInv_pending_push:
  "coreInv s \<Longrightarrow> r < length (heap s) \<Longrightarrow> status (heap s ! r) = pending \<Longrightarrow>
   r \<notin> set (pendingQueue s) \<Longrightarrow> coreInv (s\<lparr>pendingQueue := pendingQueue s @ [r]\<rparr>)"
  unfolding inv_defs by auto

lemma coreInv_store_filter:
  assumes "coreInv s"
    and "\<And>e. e \<in> set (jobs s) \<Longrightarrow> \<not> P e \<Longrightarrow> status (heap s ! snd e) \<notin> {pending, processing, retrying}"
  shows "coreInv (s\<lparr>jobs := filter P (jobs s)\<rparr>)"
proof -
  have "map_of (filter P (jobs s)) (jobId (heap s ! r)) = Some r"
    if "r < length (heap s)" "status (heap s ! r) \<in> {pending, processing, retrying}" for r
  proof -
    have m: "map_of (jobs s) (jobId (heap s ! r)) = Some r"
      using assms(1) that unfolding coreInv_def storeInv_def by blast
    then have "(jobId (heap s ! r), r) \<in> set (jobs s)"
      by (rule map_of_SomeD)
    then have "P (jobId (heap s ! r), r)"
      using assms(2) that(2) by fastforce
    with m show ?thesis
      using map_of_filter_in [of "jobs s" "jobId (heap s ! r)" r "\<lambda>k v. P (k, v)"] by simp
  qed
  then show ?thesis
    using assms(1) unfolding inv_defs by auto
qed

lemma length_update_le: "length (AList.update k v al) \<le> Suc (length al)"
  by (induction al) auto

lemma evict_deadLetter:
  assumes d: "distinct (map fst d)" "length d \<le> deadLetterCapacity"
      "\<forall>e\<in>set d. fst e \<noteq> [] \<and> jobId (snd e) = fst e \<and> status (snd e) = failed"
    and v: "k \<noteq> []" "jobId v = k" "status v = failed"
  defines "d1 \<equiv> AList.update k v d"
  defines "d2 \<equiv> (if length d1 > deadLetterCapacity then
               (case d1 of [] \<Rightarrow> d1
                | (oldestKey, _) # _ \<Rightarrow> if oldestKey \<noteq> [] then AList.delete oldestKey d1 else d1)
             else d1)"
  shows "distinct (map fst d2) \<and> length d2 \<le> deadLetterCapacity \<and>
         (\<forall>e\<in>set d2. fst e \<noteq> [] \<and> jobId (snd e) = fst e \<and> status (snd e) = failed)"
proof -
  have dist1: "distinct (map fst d1)"
    using d(1) unfolding d1_def by (rule distinct_update)
  have ent1: "\<forall>e\<in>set d1. fst e \<noteq> [] \<and> jobId (snd e) = fst e \<and> status (snd e) = failed"
    using d(3) v unfolding d1_def by (auto dest!: set_update_cases)
  have len1: "length d1 \<le> Suc deadLetterCapacity"
    using d(2) length_update_le [of k v d] unfolding d1_def by simp
  show ?thesis
  proof (cases "length d1 > deadLetterCapacity")
    case False
    then show ?thesis using dist1 ent1 unfolding d2_def by simp
  next
    case True
    then obtain ok ov rest where d1: "d1 = (ok, ov) # rest"
      by (cases d1) auto
    have ok: "ok \<noteq> []" using ent1 d1 by auto
    have d2: "d2 = AList.delete ok rest"
      using True ok d1 unfolding d2_def by simp
    have "length (AList.delete ok rest) \<le> length rest"
      by (rule length_delete_le)
    then have "length d2 \<le> deadLetterCapacity"
      using len1 d1 d2 by simp
    moreover have "distinct (map fst d2)"
      using dist1 d1 d2 by (simp add: distinct_delete)
    moreover have "set d2 \<subseteq> set d1"
      using d1 d2 by (auto simp: AList.delete_eq)
    ultimately show ?thesis using ent1 by blast
  qed
qed

lemma moveToDeadLetterQueue_simps [simp]:
  "heap (moveToDeadLetterQueue r now s) = heap s"
  "jobs (moveToDeadLetterQueue r now s) = jobs s"
  "pendingQueue (moveToDeadLetterQueue r now s) = pendingQueue s"
  "processingJobs (moveToDeadLetterQueue r now s) = processingJobs s"
  "awaiting (moveToDeadLetterQueue r now s) = awaiting s"
  "timers (moveToDeadLetterQueue r now s) = timers s"
  by (simp_all add: moveToDeadLetterQueue_def Let_def)

lemma moveToDeadLetterQueue_deadLetterInv:
  assumes "deadLetterInv s" "jobId (heap s ! r) \<noteq> []"
  shows "deadLetterInv (moveToDeadLetterQueue r now s)"
  using evict_deadLetter [of "deadLetterQueue s" "jobId (heap s ! r)"
      "(heap s ! r)\<lparr>status := failed, updatedAt := now\<rparr>"] assms
  unfolding deadLetterInv_def moveToDeadLetterQueue_def Let_def by simp

lemma moveToDeadLetterQueue_subset:
  "set (deadLetterQueue (moveToDeadLetterQueue r now s)) \<subseteq>
     insert (jobId (heap s ! r), (heap s ! r)\<lparr>status := failed, updatedAt := now\<rparr>)
       (set (deadLetterQueue s))"
proof -
  define d1 where "d1 = AList.update (jobId (heap s ! r))
      ((heap s ! r)\<lparr>status := failed, updatedAt := now\<rparr>) (deadLetterQueue s)"
  define d2 where "d2 = (if length d1 > deadLetterCapacity then
               (case d1 of [] \<Rightarrow> d1
                | (oldestKey, _) # _ \<Rightarrow> if oldestKey \<noteq> [] then AList.delete oldestKey d1 else d1)
             else d1)"
  have sub1: "set d1 \<subseteq> insert (jobId (heap s ! r), (heap s ! r)\<lparr>status := failed, updatedAt := now\<rparr>)
       (set (deadLetterQueue s))"
    unfolding d1_def using set_update_cases by fastforce
  have del: "set (AList.delete k d1) \<subseteq> set d1" for k
    unfolding AList.delete_eq by (rule filter_is_subset)
  have "set d2 \<subseteq> set d1"
  proof (cases d1)
    case Nil
    then show ?thesis by (simp add: d2_def)
  next
    case (Cons p ps)
    obtain ok ov where p: "p = (ok, ov)" by (cases p)
    have "d2 = d1 \<or> d2 = AList.delete ok d1"
      unfolding d2_def by (simp add: Cons p)
    then show ?thesis
      using del [of ok] by auto
  qed
  moreover have "deadLetterQueue (moveToDeadLetterQueue r now s) = d2"
    unfolding d2_def d1_def by (simp add: moveToDeadLetterQueue_def Let_def)
  ultimately show ?thesis
    using sub1 by simp
qed

lemma deadLetterInv_cong:
  "deadLetterQueue a = deadLetterQueue b \<Longrightarrow> deadLetterInv a = deadLetterInv b"
  by (simp add: deadLetterInv_def)

lemma deadIdsInv_cong:
  "deadLetterQueue a = deadLetterQueue b \<Longrightarrow> heap a = heap b \<Longrightarrow> deadIdsInv a = deadIdsInv b"
  by (simp add: deadIdsInv_def)

lemma moveToDeadLetterQueue_coreInv:
  assumes "coreInv s" "r < length (heap s)" "status (heap s ! r) = failed"
  shows "coreInv (moveToDeadLetterQueue r now s)"
proof -
  have "jobId (heap s ! r) \<noteq> []"
    using assms unfolding coreInv_def idsInv_def by (metis length_map nth_map nth_mem)
  then have "deadLetterInv (moveToDeadLetterQueue r now s)"
    using assms(1) unfolding coreInv_def by (simp add: moveToDeadLetterQueue_deadLetterInv)
  moreover have "deadIdsInv (moveToDeadLetterQueue r now s)"
  proof -
    have "\<exists>x<length (heap s). jobId (heap s ! x) = fst e \<and> status (heap s ! x) = failed"
      if "e \<in> set (deadLetterQueue (moveToDeadLetterQueue r now s))" for e
    proof -
      from that moveToDeadLetterQueue_subset [of r now s]
      consider "e = (jobId (heap s ! r), (heap s ! r)\<lparr>status := failed, updatedAt := now\<rparr>)"
        | "e \<in> set (deadLetterQueue s)"
        by blast
      then show ?thesis
      proof cases
        case 1
        then show ?thesis using assms(2,3) by auto
      next
        case 2
        have "deadIdsInv s"
          using assms(1) unfolding coreInv_def by simp
        then show ?thesis
          using 2 unfolding deadIdsInv_def by (rule bspec)
      qed
    qed
    then show ?thesis
      unfolding deadIdsInv_def by simp
  qed
  ultimately have "deadLetterInv (s\<lparr>deadLetterQueue := deadLetterQueue (moveToDeadLetterQueue r now s)\<rparr>)"
    "deadIdsInv (s\<lparr>deadLetterQueue := deadLetterQueue (moveToDeadLetterQueue r now s)\<rparr>)"
    using deadLetterInv_cong [of "s\<lparr>deadLetterQueue := deadLetterQueue (moveToDeadLetterQueue r now s)\<rparr>"
        "moveToDeadLetterQueue r now s"]
      deadIdsInv_cong [of "s\<lparr>deadLetterQueue := deadLetterQueue (moveToDeadLetterQueue r now s)\<rparr>"
        "moveToDeadLetterQueue r now s"]
    by simp_all
  then have "coreInv (s\<lparr>deadLetterQueue := deadLetterQueue (moveToDeadLetterQueue r now s)\<rparr>)"
    using assms(1) by (intro coreInv_deadLetter)
  moreover have "s\<lparr>deadLetterQueue := deadLetterQueue (moveToDeadLetterQueue r now s)\<rparr> =
      moveToDeadLetterQueue r now s"
    by (simp add: moveToDeadLetterQueue_def Let_def)
  ultimately show ?thesis
    by simp
qed

lemma handleFailure_simps [simp]:
  "length (heap (handleFailure r m now j s)) = length (heap s)"
  "jobs (handleFailure r m now j s) = jobs s"
  "pendingQueue (handleFailure r m now j s) = pendingQueue s"
  "processingJobs (handleFailure r m now j s) = processingJobs s"
  "awaiting (handleFailure r m now j s) = awaiting s"
  "jobId (heap (handleFailure r m now j s) ! x) = jobId (heap s ! x)"
  "position (heap (handleFailure r m now j s) ! x) = position (heap s ! x)"
  by (simp_all add: handleFailure_def Let_def proj_update [where f = "\<lambda>y. y\<lparr>error := e, status := st, updatedAt := u\<rparr>" for e st u])

lemma handleFailure_other: "x \<noteq> r \<Longrightarrow> heap (handleFailure r m now j s) ! x = heap s ! x"
  by (simp add: handleFailure_def Let_def)

lemma handleFailure_coreInv:
  assumes inv: "coreInv s" and r: "r < length (heap s)"
    and npq: "r \<notin> set (pendingQueue s)" and naw: "r \<notin> set (awaiting s)"
    and st: "status (heap s ! r) = processing"
  shows "coreInv (handleFailure r m now j s)"
proof (cases "\<not> isRetryableError m \<or> int (attempts (heap s ! r)) \<ge> maxAttempts (heap s ! r)")
  case True
  let ?j = "(heap s ! r)\<lparr>error := Some (categorizeError m), status := failed, updatedAt := now\<rparr>"
  let ?s1 = "s\<lparr>heap := (heap s)[r := ?j]\<rparr>"
  have att: "1 \<le> maxAttempts (heap s ! r) \<Longrightarrow> int (attempts (heap s ! r)) \<le> maxAttempts (heap s ! r)"
    using inv r unfolding coreInv_def attemptsInv_def by blast
  have "coreInv ?s1"
    using inv r npq naw att by (intro coreInv_update_obj) simp_all
  then have "coreInv (moveToDeadLetterQueue r now ?s1)"
    using r by (intro moveToDeadLetterQueue_coreInv) simp_all
  moreover have "handleFailure r m now j s = moveToDeadLetterQueue r now ?s1"
    using True by (simp add: handleFailure_def Let_def)
  ultimately show ?thesis by simp
next
  case False
  let ?j = "(heap s ! r)\<lparr>error := Some (categorizeError m), status := retrying, updatedAt := now\<rparr>"
  let ?s1 = "s\<lparr>heap := (heap s)[r := ?j]\<rparr>"
  have "coreInv ?s1"
    using inv r npq naw st False by (intro coreInv_update_obj) auto
  moreover have "\<forall>t\<in>set (timers s). fst t < length (heap s)"
    using inv unfolding coreInv_def refsValid_def by blast
  ultimately have "coreInv (?s1\<lparr>timers := timers s @ [(r, backoffDelay (attempts (heap s ! r)) j)]\<rparr>)"
    using r by (intro coreInv_timers) auto
  moreover have "handleFailure r m now j s =
      ?s1\<lparr>timers := timers s @ [(r, backoffDelay (attempts (heap s ! r)) j)]\<rparr>"
    using False by (simp add: handleFailure_def Let_def)
  ultimately show ?thesis by simp
qed

lemma finishJob_simps [simp]:
  "heap (finishJob r s) = heap s"
  "jobs (finishJob r s) = jobs s"
  "pendingQueue (finishJob r s) = pendingQueue s"
  "processingJobs (finishJob r s) = removeAll (jobId (heap s ! r)) (processingJobs s)"
  "awaiting (finishJob r s) = awaiting s"
  "timers (finishJob r s) = timers s"
  "deadLetterQueue (finishJob r s) = deadLetterQueue s"
  by (simp_all add: finishJob_def)

lemma handleFailure_processingJobs_update:
  "handleFailure r m now j (s\<lparr>processingJobs := p\<rparr>) = (handleFailure r m now j s)\<lparr>processingJobs := p\<rparr>"
  by (simp add: handleFailure_def moveToDeadLetterQueue_def Let_def)

lemma handleFailure_awaiting_update:
  "handleFailure r m now j (s\<lparr>awaiting := p\<rparr>) = (handleFailure r m now j s)\<lparr>awaiting := p\<rparr>"
  by (simp add: handleFailure_def moveToDeadLetterQueue_def Let_def)

lemma jobId_update: "jobId j' = jobId (h ! r) \<Longrightarrow> jobId (h[r := j'] ! x) = jobId (h ! x)"
  by (cases "x = r"; cases "r < length h") (simp_all add: list_update_beyond)

lemma position_update: "position j' = position (h ! r) \<Longrightarrow> position (h[r := j'] ! x) = position (h ! x)"
  by (cases "x = r"; cases "r < length h") (simp_all add: list_update_beyond)

lemma state_update_commute:
  "s\<lparr>processingJobs := a, heap := b\<rparr> = s\<lparr>heap := b, processingJobs := a\<rparr>"
  by (cases s) simp

text \<open>The dispatched object after the bookkeeping of processJob.\<close>

lemma processJob_cases:
  fixes now :: int and jit :: real
  assumes "jobId (heap s ! r) \<notin> set (processingJobs s)"
  defines "j1 \<equiv> (heap s ! r)\<lparr>status := processing, processedAt := Some now,
                      updatedAt := now, attempts := attempts (heap s ! r) + 1\<rparr>"
  defines "sa \<equiv> s\<lparr>heap := (heap s)[r := j1]\<rparr>"
  assumes r: "r < length (heap s)"
  shows "(\<exists>m. validateJobData j1 = Inl m \<and> processJob r now jit s = handleFailure r m now jit sa) \<or>
         (validateJobData j1 = Inr () \<and>
          processJob r now jit s = sa\<lparr>processingJobs := processingJobs sa @ [jobId (heap sa ! r)],
                                       awaiting := awaiting sa @ [r]\<rparr>)"
proof (cases "validateJobData j1")
  case (Inl m)
  have "processJob r now jit s =
      finishJob r (handleFailure r m now jit (sa\<lparr>processingJobs := processingJobs s @ [jobId (heap s ! r)]\<rparr>))"
    using assms(1) r Inl unfolding processJob_def sa_def j1_def
    by (simp add: Let_def state_update_commute)
  also have "\<dots> = (handleFailure r m now jit sa)\<lparr>processingJobs := processingJobs s\<rparr>"
    using assms(1) by (simp add: handleFailure_processingJobs_update finishJob_def sa_def j1_def jobId_update)
  also have "\<dots> = handleFailure r m now jit sa"
    by (simp add: handleFailure_def moveToDeadLetterQueue_def Let_def sa_def)
  finally show ?thesis using Inl by blast
next
  case (Inr u)
  then show ?thesis
    using assms(1) r unfolding processJob_def sa_def j1_def
    by (simp add: Let_def state_update_commute)
qed

lemma processJob_coreInv:
  assumes inv: "coreInv s" and r: "r < length (heap s)"
    and st: "status (heap s ! r) = pending" and npq: "r \<notin> set (pendingQueue s)"
  shows "coreInv (processJob r now jit s)"
proof (cases "jobId (heap s ! r) \<in> set (processingJobs s)")
  case True
  then show ?thesis using inv by (simp add: processJob_def)
next
  case False
  define j1 where "j1 = (heap s ! r)\<lparr>status := processing, processedAt := Some now,
                      updatedAt := now, attempts := attempts (heap s ! r) + 1\<rparr>"
  define sa where "sa = s\<lparr>heap := (heap s)[r := j1]\<rparr>"
  have naw: "r \<notin> set (awaiting s)"
    using inv st unfolding coreInv_def awaitingInv_def by auto
  have att: "1 \<le> maxAttempts (heap s ! r) \<Longrightarrow> int (attempts (heap s ! r)) < maxAttempts (heap s ! r)"
    using inv r st unfolding coreInv_def attemptsInv_def by simp
  have sa: "coreInv sa"
    unfolding sa_def using inv r npq st att
    by (intro coreInv_update_obj) (auto simp: j1_def)
  have sa_r: "heap sa ! r = j1" "length (heap sa) = length (heap s)"
      "pendingQueue sa = pendingQueue s" "awaiting sa = awaiting s"
    using r by (simp_all add: sa_def)
  have j1: "status j1 = processing" by (simp add: j1_def)
  from processJob_cases [OF False r, of now jit, folded j1_def, folded sa_def]
  show ?thesis
  proof (elim disjE exE conjE)
    fix m assume "processJob r now jit s = handleFailure r m now jit sa"
    moreover have "coreInv (handleFailure r m now jit sa)"
      using sa r npq naw j1 by (intro handleFailure_coreInv) (simp_all add: sa_r)
    ultimately show ?thesis by simp
  next
    assume "processJob r now jit s = sa\<lparr>processingJobs := processingJobs sa @ [jobId (heap sa ! r)],
                                       awaiting := awaiting sa @ [r]\<rparr>"
    moreover have "coreInv (sa\<lparr>processingJobs := processingJobs sa @ [jobId (heap sa ! r)],
                                       awaiting := awaiting sa @ [r]\<rparr>)"
      using sa r naw j1 by (intro coreInv_flight_add) (simp_all add: sa_r)
    ultimately show ?thesis by simp
  qed
qed

lemma processJob_frame:
  "pendingQueue (processJob r now jit s) = pendingQueue s"
  "length (heap (processJob r now jit s)) = length (heap s)"
  "jobs (processJob r now jit s) = jobs s"
  "jobId (heap (processJob r now jit s) ! x) = jobId (heap s ! x)"
  "x \<noteq> r \<Longrightarrow> heap (processJob r now jit s) ! x = heap s ! x"
  by (simp_all add: processJob_def Let_def handleFailure_other jobId_update split: sum.split)

lemma processJob_length_processing:
  "length (processingJobs (processJob r now jit s)) \<le> Suc (length (processingJobs s))"
  by (auto simp add: processJob_def Let_def le_SucI split: sum.split)

lemma processJobs_frame:
  "pendingQueue (processJobs rs now jit s) = pendingQueue s"
  "length (heap (processJobs rs now jit s)) = length (heap s)"
  "jobs (processJobs rs now jit s) = jobs s"
  "jobId (heap (processJobs rs now jit s) ! x) = jobId (heap s ! x)"
  "x \<notin> set rs \<Longrightarrow> heap (processJobs rs now jit s) ! x = heap s ! x"
  by (induction rs now jit s rule: processJobs.induct) (simp_all add: processJob_frame)

lemma processJobs_length_processing:
  "length (processingJobs (processJobs rs now jit s)) \<le> length (processingJobs s) + length rs"
proof (induction rs now jit s rule: processJobs.induct)
  case (1 now jit s)
  then show ?case by simp
next
  case (2 r rs now jit s)
  then show ?case
    using processJob_length_processing [of r now "jit 0" s] by simp
qed

lemma processJobs_coreInv:
  "coreInv s \<Longrightarrow> distinct rs \<Longrightarrow>
   \<forall>r\<in>set rs. r < length (heap s) \<and> status (heap s ! r) = pending \<and> r \<notin> set (pendingQueue s) \<Longrightarrow>
   coreInv (processJobs rs now jit s)"
proof (induction rs now jit s rule: processJobs.induct)
  case (1 now jit s)
  then show ?case by simp
next
  case (2 r rs now jit s)
  have "coreInv (processJob r now (jit 0) s)"
    using 2 by (intro processJob_coreInv) simp_all
  moreover have "\<forall>x\<in>set rs. x < length (heap (processJob r now (jit 0) s))
      \<and> status (heap (processJob r now (jit 0) s) ! x) = pending
      \<and> x \<notin> set (pendingQueue (processJob r now (jit 0) s))"
  proof
    fix x assume x: "x \<in> set rs"
    then have "x \<noteq> r" using 2(3) by auto
    then show "x < length (heap (processJob r now (jit 0) s))
      \<and> status (heap (processJob r now (jit 0) s) ! x) = pending
      \<and> x \<notin> set (pendingQueue (processJob r now (jit 0) s))"
      using 2(4) x by (simp add: processJob_frame)
  qed
  ultimately show ?case
    using 2 by simp
qed

lemma processNextJobs_coreInv:
  assumes inv: "coreInv s"
  shows "coreInv (processNextJobs now jit s)"
proof (cases "length (processingJobs s) \<ge> maxConcurrentJobs")
  case True
  then show ?thesis using inv by (simp add: processNextJobs_def)
next
  case False
  define sorted where "sorted = sort_key (sortKey (heap s)) (pendingQueue s)"
  define k where "k = maxConcurrentJobs - length (processingJobs s)"
  define s1 where "s1 = s\<lparr>pendingQueue := drop k sorted\<rparr>"
  have pq: "distinct (pendingQueue s)"
    "\<forall>r\<in>set (pendingQueue s). r < length (heap s) \<and> status (heap s ! r) = pending"
    using inv unfolding coreInv_def pendingInv_def refsValid_def by auto
  have ds: "distinct sorted" and ss: "set sorted = set (pendingQueue s)"
    using pq(1) by (simp_all add: sorted_def)
  have dt: "distinct (take k sorted)" and dd: "distinct (drop k sorted)"
    using ds by simp_all
  have disj: "set (take k sorted) \<inter> set (drop k sorted) = {}"
    using ds by (metis append_take_drop_id distinct_append)
  have "set (drop k sorted) \<subseteq> set (pendingQueue s)"
    using set_drop_subset [of k sorted] ss by simp
  then have s1: "coreInv s1"
    unfolding s1_def using inv dd by (intro coreInv_pending_shrink)
  have "\<forall>r\<in>set (take k sorted). r < length (heap s1) \<and> status (heap s1 ! r) = pending
      \<and> r \<notin> set (pendingQueue s1)"
  proof
    fix r assume r: "r \<in> set (take k sorted)"
    then have "r \<in> set (pendingQueue s)"
      using set_take_subset [of k sorted] ss by auto
    then show "r < length (heap s1) \<and> status (heap s1 ! r) = pending \<and> r \<notin> set (pendingQueue s1)"
      using pq(2) disj r by (auto simp: s1_def)
  qed
  then have "coreInv (processJobs (take k sorted) now jit s1)"
    using s1 dt by (intro processJobs_coreInv)
  moreover have "processNextJobs now jit s = updateQueuePositions (processJobs (take k sorted) now jit s1)"
    using False by (simp add: processNextJobs_def Let_def sorted_def k_def s1_def)
  ultimately show ?thesis by simp
qed

lemma resumeJob_coreInv:
  assumes inv: "coreInv s" and r: "r \<in> set (awaiting s)"
  shows "coreInv (resumeJob r out now jit s)"
proof -
  define sb where "sb = s\<lparr>awaiting := remove1 r (awaiting s),
      processingJobs := removeAll (jobId (heap s ! r)) (processingJobs s)\<rparr>"
  have sb: "coreInv sb"
    unfolding sb_def using inv r by (rule coreInv_flight_remove)
  have rv: "r < length (heap s)" and st: "status (heap s ! r) = processing"
    and da: "distinct (awaiting s)"
    using inv r unfolding coreInv_def refsValid_def awaitingInv_def by auto
  have npq: "r \<notin> set (pendingQueue s)"
    using inv st unfolding coreInv_def pendingInv_def by auto
  have naw: "r \<notin> set (awaiting sb)"
    using da by (simp add: sb_def)
  have att: "1 \<le> maxAttempts (heap s ! r) \<Longrightarrow> int (attempts (heap s ! r)) \<le> maxAttempts (heap s ! r)"
    using inv rv unfolding coreInv_def attemptsInv_def by blast
  have fail: "coreInv (handleFailure r m now jit sb)" for m
    using sb rv npq naw st by (intro handleFailure_coreInv) (simp_all add: sb_def)
  have fail_eq: "finishJob r (handleFailure r m now jit (s\<lparr>awaiting := remove1 r (awaiting s)\<rparr>))
      = handleFailure r m now jit sb" for m
    by (cases s) (simp add: finishJob_def handleFailure_def moveToDeadLetterQueue_def Let_def sb_def jobId_update)
  have ok: "coreInv (sb\<lparr>heap := (heap sb)[r := (heap s ! r)\<lparr>status := completed,
      transactionHash := Some tx, completedAt := Some now, updatedAt := now\<rparr>]\<rparr>)" for tx
    using sb rv npq naw att st by (intro coreInv_update_obj) (simp_all add: sb_def)
  have ok_eq: "finishJob r (s\<lparr>awaiting := remove1 r (awaiting s),
        heap := (heap s)[r := (heap s ! r)\<lparr>status := completed,
          transactionHash := Some tx, completedAt := Some now, updatedAt := now\<rparr>]\<rparr>)
      = sb\<lparr>heap := (heap sb)[r := (heap s ! r)\<lparr>status := completed,
      transactionHash := Some tx, completedAt := Some now, updatedAt := now\<rparr>]\<rparr>" for tx
    by (cases s) (simp add: finishJob_def sb_def jobId_update)
  show ?thesis
    unfolding resumeJob_def Let_def
    by (simp add: fail_eq ok_eq fail ok split: outcome.split)
qed


lemma set_delete_aux_subset: "set (AList.delete_aux k xs) \<subseteq> set xs"
  by (induction xs) (auto split: if_splits)

lemma retryTimer_coreInv:
  assumes inv: "coreInv s" and r: "r \<in> fst ` set (timers s)"
  shows "coreInv (retryTimer r s)"
proof -
  define s0 where "s0 = s\<lparr>timers := AList.delete_aux r (timers s)\<rparr>"
  have tv: "\<forall>t\<in>set (timers s). fst t < length (heap s)"
    using inv unfolding coreInv_def refsValid_def by blast
  then have rv: "r < length (heap s)"
    using r by auto
  have s0: "coreInv s0"
    unfolding s0_def using inv tv set_delete_aux_subset [of r "timers s"]
    by (intro coreInv_timers) auto
  show ?thesis
  proof (cases "status (heap s ! r) = retrying")
    case False
    then show ?thesis
      using s0 by (simp add: retryTimer_def Let_def s0_def)
  next
    case True
    define s1 where "s1 = s0\<lparr>heap := (heap s0)[r := (heap s0 ! r)\<lparr>status := pending\<rparr>]\<rparr>"
    have npq: "r \<notin> set (pendingQueue s)"
      using inv True unfolding coreInv_def pendingInv_def by auto
    have naw: "r \<notin> set (awaiting s)"
      using inv True unfolding coreInv_def awaitingInv_def by auto
    have att: "1 \<le> maxAttempts (heap s ! r) \<Longrightarrow> int (attempts (heap s ! r)) < maxAttempts (heap s ! r)"
      using inv rv True unfolding coreInv_def attemptsInv_def by simp
    have "coreInv s1"
      unfolding s1_def using s0 rv npq naw att True
      by (intro coreInv_update_obj) (auto simp: s0_def)
    then have "coreInv (s1\<lparr>pendingQueue := pendingQueue s1 @ [r]\<rparr>)"
      using rv npq by (intro coreInv_pending_push) (simp_all add: s1_def s0_def)
    moreover have "retryTimer r s = updateQueuePositions (s1\<lparr>pendingQueue := pendingQueue s1 @ [r]\<rparr>)"
      using True by (cases s) (simp add: retryTimer_def Let_def s1_def s0_def)
    ultimately show ?thesis by simp
  qed
qed

lemma cleanupOldJobs_coreInv:
  assumes "coreInv s"
  shows "coreInv (cleanupOldJobs now s)"
  unfolding cleanupOldJobs_def Let_def
  using assms by (intro coreInv_store_filter) (auto simp: isTerminal_def)

lemma findIndex_None: "findIndex P xs = None \<longleftrightarrow> (\<forall>x\<in>set xs. \<not> P x)"
  by (induction xs) auto

lemma findIndex_Some: "findIndex P xs = Some i \<Longrightarrow> i < length xs \<and> P (xs ! i)"
  by (induction xs arbitrary: i) (auto split: if_splits)

lemma remove_nth_set: "set (take i xs @ drop (Suc i) xs) \<subseteq> set xs"
  using set_take_subset [of i xs] set_drop_subset [of "Suc i" xs] by auto

lemma remove_nth_distinct: "distinct xs \<Longrightarrow> distinct (take i xs @ drop (Suc i) xs)"
proof (induction xs arbitrary: i)
  case Nil
  then show ?case by simp
next
  case (Cons x xs)
  show ?case
  proof (cases i)
    case 0
    then show ?thesis using Cons.prems by simp
  next
    case (Suc n)
    have "x \<notin> set (take n xs)" "x \<notin> set (drop (Suc n) xs)"
      using Cons.prems by (auto dest: in_set_takeD in_set_dropD)
    then show ?thesis using Suc Cons by simp
  qed
qed

lemma remove_nth_notin:
  "distinct xs \<Longrightarrow> i < length xs \<Longrightarrow> xs ! i \<notin> set (take i xs @ drop (Suc i) xs)"
proof (induction xs arbitrary: i)
  case Nil
  then show ?case by simp
next
  case (Cons x xs)
  show ?case
  proof (cases i)
    case 0
    then show ?thesis using Cons.prems by simp
  next
    case (Suc n)
    have "xs ! n \<noteq> x"
      using Cons.prems Suc by auto
    then show ?thesis using Suc Cons by simp
  qed
qed


lemma cancelJob_coreInv:
  assumes inv: "coreInv s"
  shows "coreInv (snd (cancelJob jid now s))"
proof (cases "map_of (jobs s) jid")
  case None
  then show ?thesis using inv by (simp add: cancelJob_def)
next
  case (Some r)
  show ?thesis
  proof (cases "status (heap s ! r) = pending")
    case False
    then show ?thesis using inv Some by (simp add: cancelJob_def)
  next
    case True
    define j' where "j' = (heap s ! r)\<lparr>status := failed, error := Some ''Cancelled by user'', updatedAt := now\<rparr>"
    have "(jid, r) \<in> set (jobs s)"
      using Some by (rule map_of_SomeD)
    then have rv: "r < length (heap s)" and rid: "jobId (heap s ! r) = jid"
      using inv unfolding coreInv_def refsValid_def storeInv_def by auto
    have pq: "distinct (pendingQueue s)" "\<forall>x\<in>set (pendingQueue s). x < length (heap s)"
      using inv unfolding coreInv_def refsValid_def pendingInv_def by auto
    have same: "x = r" if "x \<in> set (pendingQueue s)" "jobId (heap s ! x) = jid" for x
      using inv pq(2) rv rid that unfolding coreInv_def idsInv_def by (metis ids_inj)
    have att: "1 \<le> maxAttempts (heap s ! r) \<Longrightarrow> int (attempts (heap s ! r)) \<le> maxAttempts (heap s ! r)"
      using inv rv unfolding coreInv_def attemptsInv_def by blast
    have naw: "r \<notin> set (awaiting s)"
      using inv True unfolding coreInv_def awaitingInv_def by auto
    let ?P = "\<lambda>x. jobId ((heap s)[r := j'] ! x) = jid"
    have P: "?P x \<longleftrightarrow> jobId (heap s ! x) = jid" for x
      by (simp add: jobId_update j'_def)
    show ?thesis
    proof (cases "findIndex ?P (pendingQueue s)")
      case None
      then have "r \<notin> set (pendingQueue s)"
        using rid by (auto simp: findIndex_None P)
      then have "coreInv (s\<lparr>heap := (heap s)[r := j']\<rparr>)"
        using inv rv att naw by (intro coreInv_update_obj) (simp_all add: j'_def)
      then show ?thesis
        using Some True None by (simp add: cancelJob_def Let_def j'_def)
    next
      case (Some i)
      define q where "q = take i (pendingQueue s) @ drop (Suc i) (pendingQueue s)"
      have i: "i < length (pendingQueue s)" "jobId (heap s ! (pendingQueue s ! i)) = jid"
        using findIndex_Some [OF Some] by (simp_all add: P)
      then have "pendingQueue s ! i = r"
        using same by simp
      then have nq: "r \<notin> set q"
        using remove_nth_notin [OF pq(1) i(1)] by (simp add: q_def)
      have "coreInv (s\<lparr>pendingQueue := q\<rparr>)"
        unfolding q_def using inv remove_nth_distinct [OF pq(1)] remove_nth_set
        by (intro coreInv_pending_shrink)
      then have "coreInv (s\<lparr>pendingQueue := q\<rparr>\<lparr>heap := (heap (s\<lparr>pendingQueue := q\<rparr>))[r := j']\<rparr>)"
        using rv att nq naw by (intro coreInv_update_obj) (simp_all add: j'_def)
      moreover have "snd (cancelJob jid now s) =
          updateQueuePositions (s\<lparr>pendingQueue := q\<rparr>\<lparr>heap := (heap (s\<lparr>pendingQueue := q\<rparr>))[r := j']\<rparr>)"
        using \<open>map_of (jobs s) jid = Some r\<close> True Some
        by (cases s) (simp add: cancelJob_def Let_def j'_def q_def)
      ultimately show ?thesis by simp
    qed
  qed
qed


lemma fold_delete_filter:
  "fold (\<lambda>x. AList.delete (f x)) xs al = filter (\<lambda>e. fst e \<notin> f ` set xs) al"
proof (induction xs arbitrary: al)
  case Nil
  then show ?case by simp
next
  case (Cons x xs)
  have "filter (\<lambda>e. fst e \<notin> f ` set xs) (AList.delete (f x) al)
      = filter (\<lambda>e. fst e \<notin> f ` set (x # xs)) al"
    by (induction al) auto
  then show ?case using Cons by simp
qed

lemma fold_delete_filter_pair:
  "fold (\<lambda>(k, v). AList.delete k) xs al = filter (\<lambda>e. fst e \<notin> fst ` set xs) al"
proof -
  have eq: "(\<lambda>(k, v). AList.delete k) = (\<lambda>e. AList.delete (fst e))"
    by (simp add: case_prod_unfold)
  show ?thesis
    unfolding eq by (rule fold_delete_filter)
qed

lemma deadLetterInv_filter:
  assumes "deadLetterInv s"
  shows "deadLetterInv (s\<lparr>deadLetterQueue := filter P (deadLetterQueue s)\<rparr>)"
proof -
  have "length (filter P (deadLetterQueue s)) \<le> length (deadLetterQueue s)"
    by (rule length_filter_le)
  then have "length (filter P (deadLetterQueue s)) \<le> deadLetterCapacity"
    using assms unfolding deadLetterInv_def by linarith
  then show ?thesis
    using assms unfolding deadLetterInv_def by (simp add: distinct_map_filter)
qed

lemma clearUserJobs_coreInv:
  assumes inv: "coreInv s"
  shows "coreInv (snd (clearUserJobs addr s))"
proof -
  define cleared where "cleared = filter (\<lambda>r. isTerminal (heap s ! r)) (getJobsByAddress addr s)"
  define dead where "dead = filter (\<lambda>(jid, job). toLowerCase (address (jdata job)) = toLowerCase addr)
                   (deadLetterQueue s)"
  define P where "P = (\<lambda>e :: string \<times> nat. fst e \<notin> (\<lambda>r. jobId (heap s ! r)) ` set cleared)"
  define Q where "Q = (\<lambda>e :: string \<times> QueueJob. fst e \<notin> fst ` set dead)"
  have cl: "\<forall>r\<in>set cleared. r < length (heap s) \<and> isTerminal (heap s ! r)"
    using inv unfolding cleared_def getJobsByAddress_def coreInv_def refsValid_def by auto
  have gone: "status (heap s ! snd e) \<notin> {pending, processing, retrying}"
    if e: "e \<in> set (jobs s)" and "\<not> P e" for e
  proof -
    from that obtain r where r: "r \<in> set cleared" "jobId (heap s ! r) = fst e"
      unfolding P_def by auto
    have "snd e < length (heap s)" "jobId (heap s ! snd e) = fst e"
      using inv e unfolding coreInv_def refsValid_def storeInv_def by auto
    moreover have "r < length (heap s)" "distinct (map jobId (heap s))"
      using inv cl r(1) unfolding coreInv_def idsInv_def by auto
    ultimately have "snd e = r"
      using r(2) ids_inj [of "heap s" "snd e" r] by simp
    then show ?thesis
      using cl r(1) by (auto simp: isTerminal_def)
  qed
  have "coreInv (s\<lparr>jobs := filter P (jobs s)\<rparr>)"
    using inv gone by (rule coreInv_store_filter)
  moreover have "deadLetterInv (s\<lparr>jobs := filter P (jobs s)\<rparr>\<lparr>deadLetterQueue := filter Q (deadLetterQueue s)\<rparr>)"
  proof -
    have "deadLetterInv s"
      using inv unfolding coreInv_def by blast
    then have "deadLetterInv (s\<lparr>deadLetterQueue := filter Q (deadLetterQueue s)\<rparr>)"
      by (rule deadLetterInv_filter)
    then show ?thesis
      by (simp add: deadLetterInv_def)
  qed
  moreover have "deadIdsInv (s\<lparr>jobs := filter P (jobs s)\<rparr>\<lparr>deadLetterQueue := filter Q (deadLetterQueue s)\<rparr>)"
  proof -
    have "deadIdsInv s"
      using inv unfolding coreInv_def by blast
    then have "deadIdsInv (s\<lparr>deadLetterQueue := filter Q (deadLetterQueue s)\<rparr>)"
      by (rule deadIdsInv_subset) simp
    then show ?thesis
      by (simp add: deadIdsInv_def)
  qed
  ultimately have "coreInv (s\<lparr>jobs := filter P (jobs s)\<rparr>\<lparr>deadLetterQueue := filter Q (deadLetterQueue s)\<rparr>)"
    by (rule coreInv_deadLetter)
  moreover have "fold (\<lambda>(jid, job). AList.delete jid) dead (deadLetterQueue s) = filter Q (deadLetterQueue s)"
    unfolding Q_def by (rule fold_delete_filter_pair)
  moreover have "fold (\<lambda>r. AList.delete (jobId (heap s ! r))) cleared (jobs s) = filter P (jobs s)"
    unfolding P_def by (rule fold_delete_filter)
  ultimately show ?thesis
    by (simp add: clearUserJobs_def Let_def cleared_def [symmetric] dead_def [symmetric])
qed

lemma coreInv_alloc:
  assumes inv: "coreInv s" and fresh: "jobId j \<notin> set (map jobId (heap s))"
    and ne: "jobId j \<noteq> []" and st: "status j = pending" and at: "attempts j = 0"
  shows "coreInv (s\<lparr>heap := heap s @ [j],
                     jobs := AList.update (jobId j) (length (heap s)) (jobs s),
                     pendingQueue := pendingQueue s @ [length (heap s)]\<rparr>)"
proof -
  let ?n = "length (heap s)"
  let ?s' = "s\<lparr>heap := heap s @ [j], jobs := AList.update (jobId j) ?n (jobs s),
                pendingQueue := pendingQueue s @ [?n]\<rparr>"
  have old: "(heap s @ [j]) ! x = heap s ! x" if "x < ?n" for x
    using that by (simp add: nth_append)
  have new: "(heap s @ [j]) ! ?n = j"
    by simp
  have rv: "\<forall>r\<in>set (pendingQueue s). r < ?n" "\<forall>r\<in>set (awaiting s). r < ?n"
    "\<forall>t\<in>set (timers s). fst t < ?n" "\<forall>e\<in>set (jobs s). snd e < ?n"
    using inv unfolding coreInv_def refsValid_def by blast+
  have "refsValid ?s'"
    using rv unfolding refsValid_def
    by (auto dest!: set_update_cases simp: less_Suc_eq)
  moreover have "idsInv ?s'"
    using inv fresh ne unfolding coreInv_def idsInv_def by auto
  moreover have "pendingInv ?s'"
    using inv rv(1) st unfolding coreInv_def pendingInv_def
    by (auto simp: old)
  moreover have "awaitingInv ?s'"
    using inv rv(2) unfolding coreInv_def awaitingInv_def
    by (auto simp: old)
  moreover have "storeInv ?s'"
  proof -
    have oldid: "jobId (heap s ! r) \<noteq> jobId j" if "r < ?n" for r
      using fresh that by (metis nth_map nth_mem length_map)
    have "\<forall>e\<in>set (jobs ?s'). jobId (heap ?s' ! snd e) = fst e"
    proof
      fix e assume "e \<in> set (jobs ?s')"
      then consider "e = (jobId j, ?n)" | "e \<in> set (jobs s)"
        using set_update_cases by fastforce
      then show "jobId (heap ?s' ! snd e) = fst e"
      proof cases
        case 1
        then show ?thesis by simp
      next
        case 2
        then have "snd e < ?n" "jobId (heap s ! snd e) = fst e"
          using inv unfolding coreInv_def storeInv_def refsValid_def by auto
        then show ?thesis by (simp add: old)
      qed
    qed
    moreover have "\<forall>r<length (heap ?s'). status (heap ?s' ! r) \<in> {pending, processing, retrying} \<longrightarrow>
        map_of (jobs ?s') (jobId (heap ?s' ! r)) = Some r"
      using inv oldid unfolding coreInv_def storeInv_def
      by (auto simp: update_conv' old less_Suc_eq)
    ultimately show ?thesis
      unfolding storeInv_def by blast
  qed
  moreover have "attemptsInv ?s'"
    using inv st at unfolding coreInv_def attemptsInv_def
    by (auto simp: old less_Suc_eq)
  moreover have "deadLetterInv ?s'"
    using inv unfolding coreInv_def deadLetterInv_def by simp
  moreover have "deadIdsInv ?s'"
  proof -
    have "\<exists>x<Suc ?n. jobId ((heap s @ [j]) ! x) = fst e \<and> status ((heap s @ [j]) ! x) = failed"
      if "e \<in> set (deadLetterQueue s)" for e
    proof -
      have "deadIdsInv s"
        using inv unfolding coreInv_def by simp
      then have "\<exists>x<?n. jobId (heap s ! x) = fst e \<and> status (heap s ! x) = failed"
        using that unfolding deadIdsInv_def by (rule bspec)
      then obtain x where x: "x < ?n" "jobId (heap s ! x) = fst e" "status (heap s ! x) = failed"
        by auto
      then show ?thesis
        using old [of x] by (intro exI [of _ x]) simp
    qed
    then show ?thesis
      unfolding deadIdsInv_def by simp
  qed
  ultimately show ?thesis
    unfolding coreInv_def by simp
qed

lemma addJob_coreInv:
  assumes "coreInv s" "freshId (generateJobId ts rnd) s"
  shows "coreInv (snd (addJob jd ts rnd now s))"
proof -
  define j where "j = newJob jd (generateJobId ts rnd) now (length (pendingQueue s) + 1)"
  have "coreInv (s\<lparr>heap := heap s @ [j],
                     jobs := AList.update (jobId j) (length (heap s)) (jobs s),
                     pendingQueue := pendingQueue s @ [length (heap s)]\<rparr>)"
    using assms by (intro coreInv_alloc) (simp_all add: j_def newJob_def freshId_def)
  moreover have "jobId j = generateJobId ts rnd"
    by (simp add: j_def newJob_def)
  ultimately show ?thesis
    by (simp add: addJob_def Let_def j_def)
qed

lemma retryFailedJob_coreInv:
  assumes inv: "coreInv s" and fresh: "freshId (generateJobId ts rnd) s"
  shows "coreInv (snd (retryFailedJob jid ts rnd now s))"
proof (cases "map_of (deadLetterQueue s) jid")
  case None
  then show ?thesis using inv by (simp add: retryFailedJob_def)
next
  case (Some failedJob)
  define j where "j = failedJob\<lparr>jobId := generateJobId ts rnd, status := pending,
                attempts := 0, createdAt := now, updatedAt := now, error := None,
                processedAt := None, completedAt := None, transactionHash := None\<rparr>"
  define s1 where "s1 = updateQueuePositions (s\<lparr>heap := heap s @ [j],
                     jobs := AList.update (jobId j) (length (heap s)) (jobs s),
                     pendingQueue := pendingQueue s @ [length (heap s)]\<rparr>)"
  have "coreInv (s\<lparr>heap := heap s @ [j],
                     jobs := AList.update (jobId j) (length (heap s)) (jobs s),
                     pendingQueue := pendingQueue s @ [length (heap s)]\<rparr>)"
    using inv fresh by (intro coreInv_alloc) (simp_all add: j_def freshId_def)
  then have s1: "coreInv s1"
    by (simp add: s1_def)
  then have "deadLetterInv s1"
    unfolding coreInv_def by blast
  then have "deadLetterInv (s1\<lparr>deadLetterQueue := AList.delete jid (deadLetterQueue s1)\<rparr>)"
    unfolding AList.delete_eq by (rule deadLetterInv_filter)
  moreover have "deadIdsInv (s1\<lparr>deadLetterQueue := AList.delete jid (deadLetterQueue s1)\<rparr>)"
  proof (rule deadIdsInv_subset)
    show "deadIdsInv s1"
      using s1 unfolding coreInv_def by blast
    show "set (AList.delete jid (deadLetterQueue s1)) \<subseteq> set (deadLetterQueue s1)"
      unfolding AList.delete_eq by (rule filter_is_subset)
  qed
  ultimately have "coreInv (s1\<lparr>deadLetterQueue := AList.delete jid (deadLetterQueue s1)\<rparr>)"
    using s1 by (intro coreInv_deadLetter)
  moreover have "snd (retryFailedJob jid ts rnd now s) =
      s1\<lparr>deadLetterQueue := AList.delete jid (deadLetterQueue s1)\<rparr>"
    using Some by (simp add: retryFailedJob_def Let_def s1_def j_def)
  ultimately show ?thesis by simp
qed

lemma emptyQueue_coreInv: "coreInv emptyQueue"
  unfolding inv_defs by (simp add: emptyQueue_def)

lemma step_coreInv:
  assumes "coreInv s" "step e s = Some s'"
  shows "coreInv s'"
proof (cases e)
  case (EvRetryTimer r)
  then have "r \<in> fst ` set (timers s)" "s' = retryTimer r s"
    using assms(2) by (simp_all split: if_splits)
  then show ?thesis
    using assms(1) by (simp add: retryTimer_coreInv)
qed (use assms in \<open>auto simp: addJob_coreInv processNextJobs_coreInv resumeJob_coreInv
      cancelJob_coreInv retryFailedJob_coreInv cleanupOldJobs_coreInv clearUserJobs_coreInv
      split: if_splits\<close>)

lemma run_coreInv: "coreInv s \<Longrightarrow> run es s = Some s' \<Longrightarrow> coreInv s'"
  by (induction es arbitrary: s) (auto split: option.splits dest: step_coreInv)

lemma positionsInv_cong:
  "pendingQueue s' = pendingQueue s \<Longrightarrow> (\<And>x. position (heap s' ! x) = position (heap s ! x)) \<Longrightarrow>
   positionsInv s \<Longrightarrow> positionsInv s'"
  unfolding positionsInv_def by simp

lemma positionsInv_after_update:
  assumes "coreInv (updateQueuePositions s)"
  shows "positionsInv (updateQueuePositions s)"
proof -
  have "distinct (pendingQueue s)" "\<forall>r\<in>set (pendingQueue s). r < length (heap s)"
    using assms unfolding coreInv_def pendingInv_def refsValid_def by simp_all
  then show ?thesis
    by (rule updateQueuePositions_positionsInv)
qed

lemma resumeJob_frame:
  "pendingQueue (resumeJob r out now jit s) = pendingQueue s"
  "jobs (resumeJob r out now jit s) = jobs s"
  "length (heap (resumeJob r out now jit s)) = length (heap s)"
  "processingJobs (resumeJob r out now jit s) = removeAll (jobId (heap s ! r)) (processingJobs s)"
  "awaiting (resumeJob r out now jit s) = remove1 r (awaiting s)"
  "jobId (heap (resumeJob r out now jit s) ! x) = jobId (heap s ! x)"
  "position (heap (resumeJob r out now jit s) ! x) = position (heap s ! x)"
  "x \<noteq> r \<Longrightarrow> heap (resumeJob r out now jit s) ! x = heap s ! x"
  by (simp_all add: resumeJob_def Let_def jobId_update position_update handleFailure_other
      split: outcome.split)

lemma cancelJob_frame:
  "jobs (snd (cancelJob jid now s)) = jobs s"
  "processingJobs (snd (cancelJob jid now s)) = processingJobs s"
  "awaiting (snd (cancelJob jid now s)) = awaiting s"
  "timers (snd (cancelJob jid now s)) = timers s"
  "deadLetterQueue (snd (cancelJob jid now s)) = deadLetterQueue s"
  "length (heap (snd (cancelJob jid now s))) = length (heap s)"
  "jobId (heap (snd (cancelJob jid now s)) ! x) = jobId (heap s ! x)"
  by (simp_all add: cancelJob_def Let_def jobId_update split: option.split)

lemma processNextJobs_length_processing:
  assumes "length (processingJobs s) \<le> maxConcurrentJobs"
  shows "length (processingJobs (processNextJobs now jit s)) \<le> maxConcurrentJobs"
proof (cases "length (processingJobs s) \<ge> maxConcurrentJobs")
  case True
  then show ?thesis using assms by (simp add: processNextJobs_def)
next
  case False
  define k where "k = maxConcurrentJobs - length (processingJobs s)"
  define sorted where "sorted = sort_key (sortKey (heap s)) (pendingQueue s)"
  have "length (processingJobs (processJobs (take k sorted) now jit (s\<lparr>pendingQueue := drop k sorted\<rparr>)))
      \<le> length (processingJobs s) + length (take k sorted)"
    using processJobs_length_processing [of "take k sorted" now jit "s\<lparr>pendingQueue := drop k sorted\<rparr>"]
    by simp
  also have "\<dots> \<le> length (processingJobs s) + k"
    by simp
  also have "\<dots> = maxConcurrentJobs"
    using False by (simp add: k_def)
  finally show ?thesis
    using False by (simp add: processNextJobs_def Let_def k_def sorted_def)
qed

lemma retryTimer_frame:
  "processingJobs (retryTimer r s) = processingJobs s"
  "awaiting (retryTimer r s) = awaiting s"
  "jobs (retryTimer r s) = jobs s"
  "deadLetterQueue (retryTimer r s) = deadLetterQueue s"
  by (simp_all add: retryTimer_def Let_def)

lemma retryFailedJob_frame:
  "processingJobs (snd (retryFailedJob jid ts rnd now s)) = processingJobs s"
  "awaiting (snd (retryFailedJob jid ts rnd now s)) = awaiting s"
  by (simp_all add: retryFailedJob_def Let_def split: option.split)

lemma cleanupOldJobs_frame:
  "heap (cleanupOldJobs now s) = heap s"
  "pendingQueue (cleanupOldJobs now s) = pendingQueue s"
  "processingJobs (cleanupOldJobs now s) = processingJobs s"
  "awaiting (cleanupOldJobs now s) = awaiting s"
  "timers (cleanupOldJobs now s) = timers s"
  "deadLetterQueue (cleanupOldJobs now s) = deadLetterQueue s"
  by (simp_all add: cleanupOldJobs_def Let_def)

lemma clearUserJobs_frame:
  "heap (snd (clearUserJobs addr s)) = heap s"
  "pendingQueue (snd (clearUserJobs addr s)) = pendingQueue s"
  "processingJobs (snd (clearUserJobs addr s)) = processingJobs s"
  "awaiting (snd (clearUserJobs addr s)) = awaiting s"
  "timers (snd (clearUserJobs addr s)) = timers s"
  by (simp_all add: clearUserJobs_def Let_def)

lemma step_flight_bound:
  assumes "length (processingJobs s) \<le> maxConcurrentJobs" "step e s = Some s'"
  shows "length (processingJobs s') \<le> maxConcurrentJobs"
proof (cases e)
  case (EvTick now jit)
  then show ?thesis
    using assms by (auto simp: processNextJobs_length_processing split: if_splits)
next
  case (EvOutcome r out now jit)
  have "length (removeAll (jobId (heap s ! r)) (processingJobs s)) \<le> maxConcurrentJobs"
    by (rule le_trans [OF length_removeAll_less_eq assms(1)])
  then show ?thesis
    using assms EvOutcome by (auto simp: resumeJob_frame split: if_splits)
qed (use assms in \<open>auto simp: cancelJob_frame retryTimer_frame retryFailedJob_frame
      cleanupOldJobs_frame clearUserJobs_frame split: if_splits\<close>)

lemma run_flight_bound:
  "length (processingJobs s) \<le> maxConcurrentJobs \<Longrightarrow> run es s = Some s' \<Longrightarrow>
   length (processingJobs s') \<le> maxConcurrentJobs"
  by (induction es arbitrary: s) (auto split: option.splits dest: step_flight_bound)

lemma run_emptyQueue_coreInv: "run es emptyQueue = Some s \<Longrightarrow> coreInv s"
  using emptyQueue_coreInv by (rule run_coreInv)

lemma inj_on_ids:
  assumes "coreInv s"
  shows "inj_on (\<lambda>r. jobId (heap s ! r)) (set (awaiting s) \<union> set (pendingQueue s))"
proof (rule inj_onI)
  fix x y
  assume "x \<in> set (awaiting s) \<union> set (pendingQueue s)" "y \<in> set (awaiting s) \<union> set (pendingQueue s)"
    and eq: "jobId (heap s ! x) = jobId (heap s ! y)"
  then have "x < length (heap s)" "y < length (heap s)"
    using assms unfolding coreInv_def refsValid_def by auto
  moreover have "distinct (map jobId (heap s))"
    using assms unfolding coreInv_def idsInv_def by blast
  ultimately show "x = y"
    using eq by (meson ids_inj)
qed

lemma awaiting_length:
  assumes "coreInv s"
  shows "length (awaiting s) = length (processingJobs s)"
proof -
  have inj: "inj_on (\<lambda>r. jobId (heap s ! r)) (set (awaiting s))"
    using inj_on_ids [OF assms] by (rule inj_on_subset) simp
  have d: "distinct (processingJobs s)" "distinct (awaiting s)"
    and eq: "set (processingJobs s) = (\<lambda>r. jobId (heap s ! r)) ` set (awaiting s)"
    using assms unfolding coreInv_def awaitingInv_def by blast+
  have "length (processingJobs s) = card (set (processingJobs s))"
    using d(1) by (rule distinct_card [symmetric])
  also have "\<dots> = card ((\<lambda>r. jobId (heap s ! r)) ` set (awaiting s))"
    by (simp only: eq)
  also have "\<dots> = card (set (awaiting s))"
    using inj by (rule card_image)
  also have "\<dots> = length (awaiting s)"
    using d(2) by (rule distinct_card)
  finally show ?thesis by simp
qed

lemma pending_not_in_flight:
  assumes "coreInv s" "r \<in> set (pendingQueue s)"
  shows "jobId (heap s ! r) \<notin> set (processingJobs s)"
proof
  assume "jobId (heap s ! r) \<in> set (processingJobs s)"
  then obtain x where x: "x \<in> set (awaiting s)" "jobId (heap s ! x) = jobId (heap s ! r)"
    using assms(1) unfolding coreInv_def awaitingInv_def by auto
  then have "x = r"
    using inj_on_ids [OF assms(1)] assms(2) by (auto dest: inj_onD)
  then have "status (heap s ! r) = processing"
    using x(1) assms(1) unfolding coreInv_def awaitingInv_def by auto
  moreover have "status (heap s ! r) = pending"
    using assms unfolding coreInv_def pendingInv_def by auto
  ultimately show False by simp
qed

lemma jobsToProcess_subset: "set (jobsToProcess s) \<subseteq> set (pendingQueue s)"
  using set_take_subset [of "maxConcurrentJobs - length (processingJobs s)"
      "sort_key (sortKey (heap s)) (pendingQueue s)"]
  by (simp add: jobsToProcess_def)

lemma moveToDeadLetterQueue_below:
  assumes "length (deadLetterQueue s) < deadLetterCapacity"
  shows "deadLetterQueue (moveToDeadLetterQueue r now s) =
     AList.update (jobId (heap s ! r)) ((heap s ! r)\<lparr>status := failed, updatedAt := now\<rparr>)
       (deadLetterQueue s)"
proof -
  have "length (AList.update (jobId (heap s ! r)) ((heap s ! r)\<lparr>status := failed, updatedAt := now\<rparr>)
       (deadLetterQueue s)) \<le> Suc (length (deadLetterQueue s))"
    by (rule length_update_le)
  then show ?thesis
    using assms by (simp add: moveToDeadLetterQueue_def Let_def)
qed

lemma moveToDeadLetterQueue_full:
  assumes dist: "distinct (map fst (deadLetterQueue s))"
    and ne: "[] \<notin> fst ` set (deadLetterQueue s)"
    and full: "length (deadLetterQueue s) = deadLetterCapacity"
    and new: "jobId (heap s ! r) \<notin> fst ` set (deadLetterQueue s)"
  shows "deadLetterQueue (moveToDeadLetterQueue r now s) =
     tl (deadLetterQueue s) @
       [(jobId (heap s ! r), (heap s ! r)\<lparr>status := failed, updatedAt := now\<rparr>)]"
proof -
  let ?k = "jobId (heap s ! r)" and ?v = "(heap s ! r)\<lparr>status := failed, updatedAt := now\<rparr>"
  obtain ok ov rest where d: "deadLetterQueue s = (ok, ov) # rest"
    using full by (cases "deadLetterQueue s") (auto simp: deadLetterCapacity_def)
  have ok: "ok \<noteq> []" "ok \<noteq> ?k" "ok \<notin> fst ` set rest"
    using ne new dist d by auto
  have upd: "AList.update ?k ?v (deadLetterQueue s) = (ok, ov) # rest @ [(?k, ?v)]"
    using update_fresh_key [OF new, of ?v] d by simp
  have "AList.delete ok (rest @ [(?k, ?v)]) = rest @ [(?k, ?v)]"
    using ok by (intro delete_id) auto
  then show ?thesis
    using upd full d ok by (simp add: moveToDeadLetterQueue_def Let_def)
qed

lemma exKey_inj: "inj exKey"
proof (rule injI)
  fix i j assume "exKey i = exKey j"
  then have "length (exKey i) = length (exKey j)" by simp
  then show "i = j" by (simp add: exKey_def generateJobId_def)
qed

lemma attempts_update: "attempts j' = attempts (h ! r) \<Longrightarrow> attempts (h[r := j'] ! x) = attempts (h ! x)"
  by (cases "x = r"; cases "r < length h") (simp_all add: list_update_beyond)

lemma setPositions_other_attempts: "attempts (setPositions rs i h ! x) = attempts (h ! x)"
  by simp

lemma not_in_flight_when_pending:
  assumes inv: "coreInv s" and r: "r < length (heap s)" and st: "status (heap s ! r) = pending"
  shows "jobId (heap s ! r) \<notin> set (processingJobs s)"
proof
  assume "jobId (heap s ! r) \<in> set (processingJobs s)"
  then obtain x where x: "x \<in> set (awaiting s)" "jobId (heap s ! x) = jobId (heap s ! r)"
    using inv unfolding coreInv_def awaitingInv_def by auto
  then have "x < length (heap s)" "status (heap s ! x) = processing"
    using inv unfolding coreInv_def refsValid_def awaitingInv_def by auto
  moreover have "distinct (map jobId (heap s))"
    using inv unfolding coreInv_def idsInv_def by blast
  ultimately have "x = r"
    using x(2) r by (meson ids_inj)
  then show False
    using st \<open>status (heap s ! x) = processing\<close> by simp
qed

lemma handleFailure_attempts [simp]:
  "attempts (heap (handleFailure r m now j s) ! x) = attempts (heap s ! x)"
  by (simp add: handleFailure_def Let_def attempts_update)

lemma processJob_attempts:
  assumes "r < length (heap s)" "jobId (heap s ! r) \<notin> set (processingJobs s)"
  shows "attempts (heap (processJob r now jitter s) ! r) = attempts (heap s ! r) + 1"
  using assms by (simp add: processJob_def Let_def split: sum.split)

lemma processJobs_attempts:
  "coreInv s \<Longrightarrow> distinct rs \<Longrightarrow>
   \<forall>r\<in>set rs. r < length (heap s) \<and> status (heap s ! r) = pending \<and> r \<notin> set (pendingQueue s) \<Longrightarrow>
   attempts (heap (processJobs rs now jit s) ! x) =
     attempts (heap s ! x) + (if x \<in> set rs then 1 else 0)"
proof (induction rs now jit s rule: processJobs.induct)
  case (1 now jit s)
  then show ?case by simp
next
  case (2 r rs now jit s)
  let ?s1 = "processJob r now (jit 0) s"
  have r: "r < length (heap s)" "status (heap s ! r) = pending" "r \<notin> set (pendingQueue s)" "r \<notin> set rs"
    using 2(3,4) by auto
  have inv1: "coreInv ?s1"
    using 2(2) r by (intro processJob_coreInv)
  have rest: "\<forall>y\<in>set rs. y < length (heap ?s1) \<and> status (heap ?s1 ! y) = pending
      \<and> y \<notin> set (pendingQueue ?s1)"
  proof
    fix y assume y: "y \<in> set rs"
    then have "y \<noteq> r" using r(4) by auto
    then show "y < length (heap ?s1) \<and> status (heap ?s1 ! y) = pending \<and> y \<notin> set (pendingQueue ?s1)"
      using 2(4) y by (simp add: processJob_frame)
  qed
  have ih: "attempts (heap (processJobs rs now (\<lambda>i. jit (Suc i)) ?s1) ! x) =
     attempts (heap ?s1 ! x) + (if x \<in> set rs then 1 else 0)"
    using 2(1) [OF inv1 _ rest] 2(3) by simp
  have nf: "jobId (heap s ! r) \<notin> set (processingJobs s)"
    using 2(2) r(1,2) by (rule not_in_flight_when_pending)
  have "attempts (heap ?s1 ! x) = attempts (heap s ! x) + (if x = r then 1 else 0)"
    using processJob_attempts [OF r(1) nf, of now "jit 0"] processJob_frame(5) [of x r now "jit 0" s]
    by auto
  then show ?case
    using ih r(4) by auto
qed

lemma processNextJobs_attempts:
  assumes inv: "coreInv s"
  shows "attempts (heap (processNextJobs now jit s) ! x) =
     attempts (heap s ! x) + (if x \<in> set (jobsToProcess s) then 1 else 0)"
proof (cases "length (processingJobs s) \<ge> maxConcurrentJobs")
  case True
  then show ?thesis by (simp add: processNextJobs_def jobsToProcess_def)
next
  case False
  define sorted where "sorted = sort_key (sortKey (heap s)) (pendingQueue s)"
  define k where "k = maxConcurrentJobs - length (processingJobs s)"
  define s1 where "s1 = s\<lparr>pendingQueue := drop k sorted\<rparr>"
  have pq: "distinct (pendingQueue s)"
    "\<forall>r\<in>set (pendingQueue s). r < length (heap s) \<and> status (heap s ! r) = pending"
    using inv unfolding coreInv_def pendingInv_def refsValid_def by auto
  have ds: "distinct sorted" and ss: "set sorted = set (pendingQueue s)"
    using pq(1) by (simp_all add: sorted_def)
  have dt: "distinct (take k sorted)" and dd: "distinct (drop k sorted)"
    using ds by simp_all
  have disj: "set (take k sorted) \<inter> set (drop k sorted) = {}"
    using ds by (metis append_take_drop_id distinct_append)
  have "set (drop k sorted) \<subseteq> set (pendingQueue s)"
    using set_drop_subset [of k sorted] ss by simp
  then have s1: "coreInv s1"
    unfolding s1_def using inv dd by (intro coreInv_pending_shrink)
  have taken: "\<forall>r\<in>set (take k sorted). r < length (heap s1) \<and> status (heap s1 ! r) = pending
      \<and> r \<notin> set (pendingQueue s1)"
  proof
    fix r assume r: "r \<in> set (take k sorted)"
    then have "r \<in> set (pendingQueue s)"
      using set_take_subset [of k sorted] ss by auto
    then show "r < length (heap s1) \<and> status (heap s1 ! r) = pending \<and> r \<notin> set (pendingQueue s1)"
      using pq(2) disj r by (auto simp: s1_def)
  qed
  have "attempts (heap (processJobs (take k sorted) now jit s1) ! x) =
      attempts (heap s1 ! x) + (if x \<in> set (take k sorted) then 1 else 0)"
    using s1 dt taken by (rule processJobs_attempts)
  moreover have "processNextJobs now jit s = updateQueuePositions (processJobs (take k sorted) now jit s1)"
    using False by (simp add: processNextJobs_def Let_def sorted_def k_def s1_def)
  moreover have "jobsToProcess s = take k sorted"
    by (simp add: jobsToProcess_def k_def sorted_def)
  ultimately show ?thesis
    by (simp add: s1_def)
qed

lemma moveToDeadLetterQueue_holds:
  assumes "length (deadLetterQueue s) \<le> deadLetterCapacity"
  shows "map_of (deadLetterQueue (moveToDeadLetterQueue r now s)) (jobId (heap s ! r)) =
     Some ((heap s ! r)\<lparr>status := failed, updatedAt := now\<rparr>)"
proof -
  define k where "k = jobId (heap s ! r)"
  define v where "v = (heap s ! r)\<lparr>status := failed, updatedAt := now\<rparr>"
  define d where "d = deadLetterQueue s"
  define d1 where "d1 = AList.update k v d"
  have res: "deadLetterQueue (moveToDeadLetterQueue r now s) =
      (if length d1 > deadLetterCapacity then
         (case d1 of [] \<Rightarrow> d1
          | (oldestKey, _) # _ \<Rightarrow> if oldestKey \<noteq> [] then AList.delete oldestKey d1 else d1)
       else d1)"
    unfolding d1_def k_def v_def d_def by (simp add: moveToDeadLetterQueue_def Let_def)
  have m1: "map_of d1 k = Some v"
    by (simp add: d1_def update_conv')
  have "map_of (deadLetterQueue (moveToDeadLetterQueue r now s)) k = Some v"
  proof (cases "length d1 > deadLetterCapacity")
    case False
    then show ?thesis using m1 by (simp add: res)
  next
    case True
    have len: "length d \<le> deadLetterCapacity"
      using assms unfolding d_def by simp
    have new: "k \<notin> fst ` set d"
    proof
      assume "k \<in> fst ` set d"
      then have "map fst d1 = map fst d"
        by (simp add: d1_def update_keys)
      then have "length d1 = length d"
        by (metis length_map)
      then show False using True len by simp
    qed
    then have app: "d1 = d @ [(k, v)]"
      unfolding d1_def by (rule update_fresh_key)
    then have "d \<noteq> []"
      using True by (auto simp: deadLetterCapacity_def)
    then obtain ok ov rest where d: "d = (ok, ov) # rest"
      by (cases d) auto
    then have ok: "ok \<noteq> k"
      using new by auto
    have hd: "d1 = (ok, ov) # (rest @ [(k, v)])"
      using app d by simp
    have del: "map_of (AList.delete ok d1) k = Some v"
      using m1 ok by simp
    have "deadLetterQueue (moveToDeadLetterQueue r now s) = (if ok \<noteq> [] then AList.delete ok d1 else d1)"
      using True unfolding res by (simp add: hd)
    then show ?thesis
      using del m1 by (cases "ok = []") simp_all
  qed
  then show ?thesis
    by (simp add: k_def v_def)
qed

lemma resumeJob_permanent_failure:
  fixes now :: int and jitter :: real
  assumes inv: "coreInv s" and r: "r \<in> set (awaiting s)"
    and perm: "\<not> isRetryableError m \<or> int (attempts (heap s ! r)) \<ge> maxAttempts (heap s ! r)"
  defines "s' \<equiv> resumeJob r (Threw m) now jitter s"
  shows "heap s' ! r = (heap s ! r)\<lparr>error := Some (categorizeError m), status := failed, updatedAt := now\<rparr>"
    and "map_of (deadLetterQueue s') (jobId (heap s ! r)) = Some (heap s' ! r)"
    and "timers s' = timers s"
    and "pendingQueue s' = pendingQueue s"
    and "r \<notin> set (pendingQueue s')"
    and "jobId (heap s ! r) \<notin> set (processingJobs s')"
proof -
  let ?j = "(heap s ! r)\<lparr>error := Some (categorizeError m), status := failed, updatedAt := now\<rparr>"
  let ?s0 = "s\<lparr>awaiting := remove1 r (awaiting s)\<rparr>"
  let ?s1 = "?s0\<lparr>heap := (heap s)[r := ?j]\<rparr>"
  have rv: "r < length (heap s)" and st: "status (heap s ! r) = processing"
    using inv r unfolding coreInv_def refsValid_def awaitingInv_def by auto
  have eq: "s' = finishJob r (moveToDeadLetterQueue r now ?s1)"
    using perm unfolding s'_def by (simp add: resumeJob_def handleFailure_def Let_def)
  show h: "heap s' ! r = ?j"
    using rv by (simp add: eq)
  have "length (deadLetterQueue ?s1) \<le> deadLetterCapacity"
    using inv unfolding coreInv_def deadLetterInv_def by simp
  then have "map_of (deadLetterQueue (moveToDeadLetterQueue r now ?s1)) (jobId (heap ?s1 ! r)) =
      Some ((heap ?s1 ! r)\<lparr>status := failed, updatedAt := now\<rparr>)"
    by (rule moveToDeadLetterQueue_holds)
  then show "map_of (deadLetterQueue s') (jobId (heap s ! r)) = Some (heap s' ! r)"
    using rv by (simp add: eq)
  show "timers s' = timers s" "pendingQueue s' = pendingQueue s"
    by (simp_all add: eq)
  then show "r \<notin> set (pendingQueue s')"
    using inv st unfolding coreInv_def pendingInv_def by auto
  show "jobId (heap s ! r) \<notin> set (processingJobs s')"
    using rv by (simp add: eq)
qed

lemma resumeJob_attempts [simp]:
  "attempts (heap (resumeJob r out now jitter s) ! x) = attempts (heap s ! x)"
  by (simp add: resumeJob_def Let_def attempts_update split: outcome.split)

lemma retryTimer_attempts [simp]: "attempts (heap (retryTimer r s) ! x) = attempts (heap s ! x)"
  by (simp add: retryTimer_def Let_def attempts_update)

lemma cancelJob_attempts [simp]:
  "attempts (heap (snd (cancelJob jid now s)) ! x) = attempts (heap s ! x)"
  by (simp add: cancelJob_def Let_def attempts_update split: option.split)

lemma retryFailedJob_attempts:
  "x < length (heap s) \<Longrightarrow>
   attempts (heap (snd (retryFailedJob jid ts rnd now s)) ! x) = attempts (heap s ! x)"
  by (simp add: retryFailedJob_def Let_def nth_append split: option.split)

lemma step_attempts:
  assumes "coreInv s" "step e s = Some s'" "x < length (heap s)"
  shows "attempts (heap s' ! x) = attempts (heap s ! x) +
       (case e of EvTick now jit \<Rightarrow> if x \<in> set (jobsToProcess s) then 1 else 0 | _ \<Rightarrow> 0)"
proof (cases e)
  case (EvTick now jit)
  then show ?thesis
    using assms processNextJobs_attempts [OF assms(1), of now jit x] by (auto split: if_splits)
qed (use assms in \<open>auto simp: addJob_heap_old retryFailedJob_attempts cleanupOldJobs_frame
      clearUserJobs_frame split: if_splits\<close>)





lemma validateJobData_payload:
  "jdata j' = jdata j \<Longrightarrow> jtype j' = jtype j \<Longrightarrow> validateJobData j' = validateJobData j"
  by (simp add: validateJobData_def)

lemma processJob_invalid:
  assumes r: "r < length (heap s)" and nf: "jobId (heap s ! r) \<notin> set (processingJobs s)"
    and bad: "validateJobData (heap s ! r) = Inl m"
  shows "processJob r now jitter s =
     handleFailure r m now jitter
       (s\<lparr>heap := (heap s)[r := (heap s ! r)\<lparr>status := processing, processedAt := Some now,
          updatedAt := now, attempts := attempts (heap s ! r) + 1\<rparr>]\<rparr>)"
proof -
  let ?j1 = "(heap s ! r)\<lparr>status := processing, processedAt := Some now,
          updatedAt := now, attempts := attempts (heap s ! r) + 1\<rparr>"
  have "validateJobData ?j1 = Inl m"
    using bad validateJobData_payload [of ?j1 "heap s ! r"] by simp
  then show ?thesis
    using processJob_cases [OF nf r, of now jitter] by auto
qed

lemma processJob_permanent_failure:
  fixes now :: int and jitter :: real
  assumes r: "r < length (heap s)" and nf: "jobId (heap s ! r) \<notin> set (processingJobs s)"
    and len: "length (deadLetterQueue s) \<le> deadLetterCapacity"
    and bad: "validateJobData (heap s ! r) = Inl m"
    and perm: "\<not> isRetryableError m \<or> int (attempts (heap s ! r)) + 1 \<ge> maxAttempts (heap s ! r)"
  defines "s' \<equiv> processJob r now jitter s"
  defines "j \<equiv> (heap s ! r)\<lparr>status := failed, processedAt := Some now, updatedAt := now,
      attempts := attempts (heap s ! r) + 1, error := Some (categorizeError m)\<rparr>"
  shows "heap s' ! r = j"
    and "deadLetterQueue s' =
      deadLetterQueue (moveToDeadLetterQueue r now (s\<lparr>heap := (heap s)[r := j]\<rparr>))"
    and "map_of (deadLetterQueue s') (jobId (heap s ! r)) = Some j"
    and "timers s' = timers s"
    and "pendingQueue s' = pendingQueue s"
    and "processingJobs s' = processingJobs s"
    and "awaiting s' = awaiting s"
proof -
  let ?j1 = "(heap s ! r)\<lparr>status := processing, processedAt := Some now,
          updatedAt := now, attempts := attempts (heap s ! r) + 1\<rparr>"
  let ?sa = "s\<lparr>heap := (heap s)[r := ?j1]\<rparr>"
  let ?sb = "s\<lparr>heap := (heap s)[r := j]\<rparr>"
  have jj: "j = ?j1\<lparr>error := Some (categorizeError m), status := failed, updatedAt := now\<rparr>"
    unfolding j_def by simp
  have "s' = handleFailure r m now jitter ?sa"
    unfolding s'_def using r nf bad by (rule processJob_invalid)
  also have "\<dots> = moveToDeadLetterQueue r now ?sb"
  proof -
    have c: "\<not> (isRetryableError m \<and> \<not> int (attempts ?j1) \<ge> maxAttempts ?j1)"
      using perm by auto
    show ?thesis
      using r c unfolding handleFailure_def Let_def jj
      by (simp del: not_le) 
  qed
  finally have eq: "s' = moveToDeadLetterQueue r now ?sb" .
  show "heap s' ! r = j"
    using r by (simp add: eq)
  show "deadLetterQueue s' = deadLetterQueue (moveToDeadLetterQueue r now ?sb)"
    by (simp add: eq)
  have "length (deadLetterQueue ?sb) \<le> deadLetterCapacity"
    using len by simp
  then have "map_of (deadLetterQueue (moveToDeadLetterQueue r now ?sb)) (jobId (heap ?sb ! r)) =
      Some ((heap ?sb ! r)\<lparr>status := failed, updatedAt := now\<rparr>)"
    by (rule moveToDeadLetterQueue_holds)
  moreover have "(heap ?sb ! r)\<lparr>status := failed, updatedAt := now\<rparr> = j" "jobId (heap ?sb ! r) = jobId (heap s ! r)"
    using r by (simp_all add: j_def)
  ultimately show "map_of (deadLetterQueue s') (jobId (heap s ! r)) = Some j"
    by (simp add: eq)
  show "timers s' = timers s" "pendingQueue s' = pendingQueue s"
    "processingJobs s' = processingJobs s" "awaiting s' = awaiting s"
    by (simp_all add: eq)
qed

lemma not_dead_lettered:
  assumes inv: "coreInv s" and r: "r < length (heap s)" and st: "status (heap s ! r) \<noteq> failed"
  shows "jobId (heap s ! r) \<notin> fst ` set (deadLetterQueue s)"
proof
  assume "jobId (heap s ! r) \<in> fst ` set (deadLetterQueue s)"
  then obtain e where e: "e \<in> set (deadLetterQueue s)" "fst e = jobId (heap s ! r)"
    by auto
  have "deadIdsInv s"
    using inv unfolding coreInv_def by simp
  then have "\<exists>x<length (heap s). jobId (heap s ! x) = fst e \<and> status (heap s ! x) = failed"
    using e(1) unfolding deadIdsInv_def by (rule bspec)
  then obtain x where x: "x < length (heap s)" "jobId (heap s ! x) = fst e" "status (heap s ! x) = failed"
    by auto
  have "distinct (map jobId (heap s))"
    using inv unfolding coreInv_def idsInv_def by simp
  then have "x = r"
    using x(1) r x(2) e(2) ids_inj [of "heap s" x r] by simp
  then show False
    using x(3) st by simp
qed

lemma update_append_in:
  "k \<in> fst ` set xs \<Longrightarrow> AList.update k v (xs @ ys) = AList.update k v xs @ ys"
  by (induction xs) auto

lemma update_append_notin:
  "k \<notin> fst ` set xs \<Longrightarrow> AList.update k v (xs @ ys) = xs @ AList.update k v ys"
  by (induction xs) auto

text \<open>An entry that has at most \<open>n\<close> entries behind it is not the one evicted by the
  next insertion, as long as \<open>n + 2\<close> entries fit into the store.\<close>

lemma evict_keeps_recent:
  fixes v' :: "'v" and k' :: "'k list"
  assumes dist: "distinct (map fst d)" and d: "d = pre @ [(k, e)] @ post"
    and n: "length post \<le> n" "Suc (Suc n) \<le> deadLetterCapacity" and k': "k' \<noteq> k"
  defines "d1 \<equiv> AList.update k' v' d"
  defines "d2 \<equiv> (if length d1 > deadLetterCapacity then
               (case d1 of [] \<Rightarrow> d1
                | (oldestKey, _) # _ \<Rightarrow> if oldestKey \<noteq> [] then AList.delete oldestKey d1 else d1)
             else d1)"
  shows "\<exists>pre' post'. d2 = pre' @ [(k, e)] @ post' \<and> length post' \<le> Suc n"
proof -
  have "\<exists>pre1 post1. d1 = pre1 @ [(k, e)] @ post1 \<and> length post1 \<le> Suc n"
  proof (cases "k' \<in> fst ` set pre")
    case True
    then have "d1 = AList.update k' v' pre @ [(k, e)] @ post"
      unfolding d1_def d by (rule update_append_in)
    moreover have "length post \<le> Suc n" using n(1) by simp
    ultimately show ?thesis by blast
  next
    case False
    then have "d1 = pre @ AList.update k' v' ([(k, e)] @ post)"
      unfolding d1_def d by (rule update_append_notin)
    then have "d1 = pre @ [(k, e)] @ AList.update k' v' post"
      using k' by simp
    moreover have "length (AList.update k' v' post) \<le> Suc n"
      using length_update_le [of k' v' post] n(1) by simp
    ultimately show ?thesis by blast
  qed
  then obtain pre1 post1 where d1: "d1 = pre1 @ [(k, e)] @ post1" and l1: "length post1 \<le> Suc n"
    by blast
  have dist1: "distinct (map fst d1)"
    unfolding d1_def using dist by (rule distinct_update)
  show ?thesis
  proof (cases "length d1 > deadLetterCapacity")
    case False
    then show ?thesis using d1 l1 unfolding d2_def by auto
  next
    case True
    have "pre1 \<noteq> []"
    proof
      assume "pre1 = []"
      then have "length d1 = Suc (length post1)" using d1 by simp
      then show False using True l1 n(2) by simp
    qed
    then obtain ok ov pre2 where pre1: "pre1 = (ok, ov) # pre2"
      by (cases pre1) auto
    have hd: "d1 = (ok, ov) # (pre2 @ [(k, e)] @ post1)"
      using d1 pre1 by simp
    have "ok \<notin> fst ` set (pre2 @ [(k, e)] @ post1)"
      using dist1 unfolding hd by auto
    then have "AList.delete ok (pre2 @ [(k, e)] @ post1) = pre2 @ [(k, e)] @ post1"
      by (rule delete_id)
    then have del: "AList.delete ok d1 = pre2 @ [(k, e)] @ post1"
      unfolding hd by simp
    have "d2 = (if ok \<noteq> [] then AList.delete ok d1 else d1)"
      using True unfolding d2_def by (simp add: hd)
    then have "d2 = pre2 @ [(k, e)] @ post1 \<or> d2 = pre1 @ [(k, e)] @ post1"
      using del d1 by (cases "ok = []") simp_all
    then show ?thesis using l1 by blast
  qed
qed

lemma moveToDeadLetterQueue_keeps_recent:
  assumes "distinct (map fst (deadLetterQueue s))"
    and "deadLetterQueue s = pre @ [(k, e)] @ post"
    and "length post \<le> n" "Suc (Suc n) \<le> deadLetterCapacity"
    and "jobId (heap s ! r) \<noteq> k"
  shows "\<exists>pre' post'. deadLetterQueue (moveToDeadLetterQueue r now s) = pre' @ [(k, e)] @ post'
     \<and> length post' \<le> Suc n"
  using evict_keeps_recent [OF assms(1-4), of "jobId (heap s ! r)"
      "(heap s ! r)\<lparr>status := failed, updatedAt := now\<rparr>"] assms(5)
  unfolding moveToDeadLetterQueue_def Let_def by simp

text \<open>An entry under a new id goes to the end of the store.\<close>

lemma moveToDeadLetterQueue_new_last:
  assumes dist: "distinct (map fst (deadLetterQueue s))"
    and new: "jobId (heap s ! r) \<notin> fst ` set (deadLetterQueue s)"
  shows "\<exists>pre. deadLetterQueue (moveToDeadLetterQueue r now s) =
     pre @ [(jobId (heap s ! r), (heap s ! r)\<lparr>status := failed, updatedAt := now\<rparr>)] @ []"
proof -
  define k where "k = jobId (heap s ! r)"
  define v where "v = (heap s ! r)\<lparr>status := failed, updatedAt := now\<rparr>"
  define d where "d = deadLetterQueue s"
  define d1 where "d1 = AList.update k v d"
  have res: "deadLetterQueue (moveToDeadLetterQueue r now s) =
      (if length d1 > deadLetterCapacity then
         (case d1 of [] \<Rightarrow> d1
          | (oldestKey, _) # _ \<Rightarrow> if oldestKey \<noteq> [] then AList.delete oldestKey d1 else d1)
       else d1)"
    unfolding d1_def k_def v_def d_def by (simp add: moveToDeadLetterQueue_def Let_def)
  have app: "d1 = d @ [(k, v)]"
    unfolding d1_def using new unfolding k_def d_def by (rule update_fresh_key)
  have "\<exists>pre. deadLetterQueue (moveToDeadLetterQueue r now s) = pre @ [(k, v)]"
  proof (cases d)
    case Nil
    then have "d1 = [(k, v)]" using app by simp
    then have "deadLetterQueue (moveToDeadLetterQueue r now s) = [(k, v)]"
      unfolding res by (simp add: deadLetterCapacity_def)
    then show ?thesis by simp
  next
    case (Cons p rest)
    obtain ok ov where p: "p = (ok, ov)" by (cases p)
    have hd: "d1 = (ok, ov) # (rest @ [(k, v)])"
      using app Cons p by simp
    have "ok \<notin> fst ` set rest" "ok \<noteq> k"
      using dist new unfolding d_def [symmetric] k_def [symmetric] Cons p by auto
    then have "AList.delete ok (rest @ [(k, v)]) = rest @ [(k, v)]"
      by (intro delete_id) auto
    then have del: "AList.delete ok d1 = rest @ [(k, v)]"
      unfolding hd by simp
    have "deadLetterQueue (moveToDeadLetterQueue r now s) = d1
        \<or> deadLetterQueue (moveToDeadLetterQueue r now s) = AList.delete ok d1"
      unfolding res by (simp add: hd)
    then show ?thesis
      using del app by auto
  qed
  then show ?thesis
    by (simp add: k_def v_def)
qed


lemma map_of_middle:
  "distinct (map fst (pre @ [(k, e)] @ post)) \<Longrightarrow> map_of (pre @ [(k, e)] @ post) k = Some e"
  by (induction pre) (auto simp: rev_image_eqI)

lemma processJob_deadLetter_cases:
  assumes r: "r < length (heap s)" and nf: "jobId (heap s ! r) \<notin> set (processingJobs s)"
  shows "deadLetterQueue (processJob r now jitter s) = deadLetterQueue s \<or>
     (\<exists>s2. deadLetterQueue s2 = deadLetterQueue s \<and> jobId (heap s2 ! r) = jobId (heap s ! r) \<and>
        deadLetterQueue (processJob r now jitter s) = deadLetterQueue (moveToDeadLetterQueue r now s2))"
proof -
  let ?j1 = "(heap s ! r)\<lparr>status := processing, processedAt := Some now,
          updatedAt := now, attempts := attempts (heap s ! r) + 1\<rparr>"
  let ?sa = "s\<lparr>heap := (heap s)[r := ?j1]\<rparr>"
  consider m where "processJob r now jitter s = handleFailure r m now jitter ?sa"
    | "processJob r now jitter s = ?sa\<lparr>processingJobs := processingJobs ?sa @ [jobId (heap ?sa ! r)],
                                       awaiting := awaiting ?sa @ [r]\<rparr>"
    using processJob_cases [OF nf r, of now jitter] by blast
  then show ?thesis
  proof cases
    case 1
    let ?job = "(heap ?sa ! r)\<lparr>error := Some (categorizeError m)\<rparr>"
    let ?s2 = "?sa\<lparr>heap := (heap ?sa)[r := ?job\<lparr>status := failed, updatedAt := now\<rparr>]\<rparr>"
    have "handleFailure r m now jitter ?sa = moveToDeadLetterQueue r now ?s2
        \<or> deadLetterQueue (handleFailure r m now jitter ?sa) = deadLetterQueue s"
      unfolding handleFailure_def Let_def by simp
    moreover have "deadLetterQueue ?s2 = deadLetterQueue s" "jobId (heap ?s2 ! r) = jobId (heap s ! r)"
      using r by simp_all
    ultimately show ?thesis
      unfolding 1 by metis
  next
    case 2
    then show ?thesis by simp
  qed
qed

lemma processJob_keeps_recent:
  assumes inv: "coreInv s" and r: "r < length (heap s)"
    and nf: "jobId (heap s ! r) \<notin> set (processingJobs s)"
    and d: "deadLetterQueue s = pre @ [(k, e)] @ post"
    and n: "length post \<le> n" "Suc (Suc n) \<le> deadLetterCapacity"
    and k: "jobId (heap s ! r) \<noteq> k"
  shows "\<exists>pre' post'. deadLetterQueue (processJob r now jitter s) = pre' @ [(k, e)] @ post'
     \<and> length post' \<le> Suc n"
proof -
  have dist: "distinct (map fst (deadLetterQueue s))"
    using inv unfolding coreInv_def deadLetterInv_def by simp
  consider "deadLetterQueue (processJob r now jitter s) = deadLetterQueue s"
    | s2 where "deadLetterQueue s2 = deadLetterQueue s" "jobId (heap s2 ! r) = jobId (heap s ! r)"
        "deadLetterQueue (processJob r now jitter s) = deadLetterQueue (moveToDeadLetterQueue r now s2)"
    using processJob_deadLetter_cases [OF r nf, of now jitter] by blast
  then show ?thesis
  proof cases
    case 1
    have "length post \<le> Suc n" using n(1) by simp
    then show ?thesis using d 1 by metis
  next
    case 2
    have "\<exists>pre' post'. deadLetterQueue (moveToDeadLetterQueue r now s2) = pre' @ [(k, e)] @ post'
       \<and> length post' \<le> Suc n"
      using dist d n k unfolding 2(1) [symmetric] 2(2) [symmetric]
      by (rule moveToDeadLetterQueue_keeps_recent)
    then show ?thesis unfolding 2(3) .
  qed
qed

lemma processJobs_step_facts:
  fixes now :: int and jitter :: real
  assumes inv: "coreInv s" and dist: "distinct (r # rs)"
    and all: "\<forall>x\<in>set (r # rs). x < length (heap s) \<and> status (heap s ! x) = pending \<and> x \<notin> set (pendingQueue s)"
  defines "s1 \<equiv> processJob r now jitter s"
  shows "coreInv s1"
    and "\<forall>x\<in>set rs. x < length (heap s1) \<and> status (heap s1 ! x) = pending \<and> x \<notin> set (pendingQueue s1)"
    and "\<forall>x\<in>set rs. heap s1 ! x = heap s ! x"
    and "jobId (heap s ! r) \<notin> set (processingJobs s)"
    and "r < length (heap s)"
proof -
  show "coreInv s1"
    unfolding s1_def using inv all by (intro processJob_coreInv) simp_all
  have ne: "\<forall>x\<in>set rs. x \<noteq> r" using dist by auto
  then show "\<forall>x\<in>set rs. heap s1 ! x = heap s ! x"
    unfolding s1_def by (simp add: processJob_frame)
  show "\<forall>x\<in>set rs. x < length (heap s1) \<and> status (heap s1 ! x) = pending \<and> x \<notin> set (pendingQueue s1)"
    unfolding s1_def using ne all by (simp add: processJob_frame)
  show "r < length (heap s)" using all by simp
  then show "jobId (heap s ! r) \<notin> set (processingJobs s)"
    using inv all by (intro not_in_flight_when_pending) simp_all
qed

lemma processJobs_keeps_recent:
  "coreInv s \<Longrightarrow> distinct rs \<Longrightarrow>
   \<forall>x\<in>set rs. x < length (heap s) \<and> status (heap s ! x) = pending \<and> x \<notin> set (pendingQueue s) \<Longrightarrow>
   deadLetterQueue s = pre @ [(k, e)] @ post \<Longrightarrow> length post \<le> n \<Longrightarrow>
   Suc (n + length rs) \<le> deadLetterCapacity \<Longrightarrow>
   \<forall>x\<in>set rs. jobId (heap s ! x) \<noteq> k \<Longrightarrow>
   \<exists>pre' post'. deadLetterQueue (processJobs rs now jit s) = pre' @ [(k, e)] @ post'
     \<and> length post' \<le> n + length rs"
proof (induction rs now jit s arbitrary: pre post n rule: processJobs.induct)
  case (1 now jit s)
  then show ?case by auto
next
  case (2 r rs now jit s)
  let ?s1 = "processJob r now (jit 0) s"
  note f = processJobs_step_facts [OF 2(2) 2(3) 2(4)]
  have "\<exists>pre' post'. deadLetterQueue ?s1 = pre' @ [(k, e)] @ post' \<and> length post' \<le> Suc n"
    using 2(2) f(5) f(4) 2(5) 2(6) _ _
  proof (rule processJob_keeps_recent)
    show "Suc (Suc n) \<le> deadLetterCapacity" using 2(7) by simp
    show "jobId (heap s ! r) \<noteq> k" using 2(8) by simp
  qed
  then obtain pre1 post1 where d1: "deadLetterQueue ?s1 = pre1 @ [(k, e)] @ post1"
    and l1: "length post1 \<le> Suc n"
    by blast
  have "\<exists>pre' post'. deadLetterQueue (processJobs rs now (\<lambda>i. jit (Suc i)) ?s1) = pre' @ [(k, e)] @ post'
     \<and> length post' \<le> Suc n + length rs"
    using f(1) _ f(2) d1 l1
  proof (rule 2(1))
    show "distinct rs" using 2(3) by simp
    show "Suc (Suc n + length rs) \<le> deadLetterCapacity" using 2(7) by simp
    show "\<forall>x\<in>set rs. jobId (heap ?s1 ! x) \<noteq> k"
      using 2(8) by (simp add: processJob_frame)
  qed
  then show ?case by simp
qed

lemma processJob_timers_other:
  "x \<noteq> r \<Longrightarrow> filter (\<lambda>t. fst t = r) (timers (processJob x now jitter s)) =
     filter (\<lambda>t. fst t = r) (timers s)"
  by (simp add: processJob_def Let_def handleFailure_def moveToDeadLetterQueue_def finishJob_def
      split: sum.split)

lemma processJobs_timers_other:
  "r \<notin> set rs \<Longrightarrow> filter (\<lambda>t. fst t = r) (timers (processJobs rs now jit s)) =
     filter (\<lambda>t. fst t = r) (timers s)"
  by (induction rs now jit s rule: processJobs.induct) (simp_all add: processJob_timers_other)

text \<open>A job of the batch that fails validation on its last attempt, or with a message
  that is not retryable, is failed and dead-lettered by the end of the batch.\<close>

lemma processJobs_permanent_failure:
  fixes now :: int
  assumes "coreInv s" "distinct rs"
    and "\<forall>x\<in>set rs. x < length (heap s) \<and> status (heap s ! x) = pending \<and> x \<notin> set (pendingQueue s)"
    and "Suc (length rs) \<le> deadLetterCapacity"
    and "r \<in> set rs"
    and "validateJobData (heap s ! r) = Inl m"
    and "\<not> isRetryableError m \<or> int (attempts (heap s ! r)) + 1 \<ge> maxAttempts (heap s ! r)"
  defines "j \<equiv> (heap s ! r)\<lparr>status := failed, processedAt := Some now, updatedAt := now,
      attempts := attempts (heap s ! r) + 1, error := Some (categorizeError m)\<rparr>"
  shows "heap (processJobs rs now jit s) ! r = j \<and>
     (\<exists>pre post. deadLetterQueue (processJobs rs now jit s) = pre @ [(jobId (heap s ! r), j)] @ post) \<and>
     filter (\<lambda>t. fst t = r) (timers (processJobs rs now jit s)) = filter (\<lambda>t. fst t = r) (timers s)"
  using assms(1-7) unfolding j_def
proof (induction rs now jit s rule: processJobs.induct)
  case (1 now jit s)
  then show ?case by simp
next
  case (2 x rs now jit s)
  let ?s1 = "processJob x now (jit 0) s"
  let ?s' = "processJobs rs now (\<lambda>i. jit (Suc i)) ?s1"
  let ?j = "(heap s ! r)\<lparr>status := failed, processedAt := Some now, updatedAt := now,
      attempts := attempts (heap s ! r) + 1, error := Some (categorizeError m)\<rparr>"
  note f = processJobs_step_facts [OF 2(2) 2(3) 2(4)]
  have drs: "distinct rs" and xrs: "x \<notin> set rs" using 2(3) by simp_all
  show ?case
  proof (cases "r = x")
    case True
    have len: "length (deadLetterQueue s) \<le> deadLetterCapacity"
      and dist: "distinct (map fst (deadLetterQueue s))"
      using 2(2) unfolding coreInv_def deadLetterInv_def by simp_all
    have rv: "r < length (heap s)" and nf: "jobId (heap s ! r) \<notin> set (processingJobs s)"
      using f(4,5) True by simp_all
    note pf = processJob_permanent_failure [OF rv nf len 2(7) 2(8), of now "jit 0"]
    let ?sb = "s\<lparr>heap := (heap s)[r := ?j]\<rparr>"
    have "status (heap s ! r) \<noteq> failed" using 2(4) True by simp
    then have new: "jobId (heap s ! r) \<notin> fst ` set (deadLetterQueue s)"
      using 2(2) rv by (intro not_dead_lettered)
    have "\<exists>pre. deadLetterQueue (moveToDeadLetterQueue r now ?sb) =
       pre @ [(jobId (heap ?sb ! r), (heap ?sb ! r)\<lparr>status := failed, updatedAt := now\<rparr>)] @ []"
      using dist new rv by (intro moveToDeadLetterQueue_new_last) simp_all
    moreover have "(heap ?sb ! r)\<lparr>status := failed, updatedAt := now\<rparr> = ?j"
      "jobId (heap ?sb ! r) = jobId (heap s ! r)"
      using rv by simp_all
    ultimately obtain pre1 where d1: "deadLetterQueue ?s1 = pre1 @ [(jobId (heap s ! r), ?j)] @ []"
      using pf(2) True by auto
    have "\<exists>pre' post'. deadLetterQueue ?s' = pre' @ [(jobId (heap s ! r), ?j)] @ post'
       \<and> length post' \<le> 0 + length rs"
      using f(1) drs f(2) d1
    proof (rule processJobs_keeps_recent)
      show "length ([] :: (string \<times> QueueJob) list) \<le> 0" by simp
      show "Suc (0 + length rs) \<le> deadLetterCapacity" using 2(5) by simp
      show "\<forall>y\<in>set rs. jobId (heap ?s1 ! y) \<noteq> jobId (heap s ! r)"
      proof
        fix y assume y: "y \<in> set rs"
        then have "y < length (heap s)" "y \<noteq> r" using 2(4) xrs True by auto
        moreover have "distinct (map jobId (heap s))"
          using 2(2) unfolding coreInv_def idsInv_def by simp
        ultimately have "jobId (heap s ! y) \<noteq> jobId (heap s ! r)"
          using rv ids_inj [of "heap s" y r] by blast
        then show "jobId (heap ?s1 ! y) \<noteq> jobId (heap s ! r)"
          by (simp add: processJob_frame)
      qed
    qed
    moreover have "heap ?s' ! r = ?j"
      using xrs True pf(1) by (simp add: processJobs_frame)
    moreover have "filter (\<lambda>t. fst t = r) (timers ?s') = filter (\<lambda>t. fst t = r) (timers s)"
      using xrs True pf(4) by (simp add: processJobs_timers_other)
    ultimately show ?thesis by auto
  next
    case False
    then have rin: "r \<in> set rs" using 2(6) by simp
    then have same: "heap ?s1 ! r = heap s ! r" using f(3) by simp
    have "heap ?s' ! r = (heap ?s1 ! r)\<lparr>status := failed, processedAt := Some now, updatedAt := now,
          attempts := attempts (heap ?s1 ! r) + 1, error := Some (categorizeError m)\<rparr> \<and>
      (\<exists>pre post. deadLetterQueue ?s' = pre @ [(jobId (heap ?s1 ! r),
         (heap ?s1 ! r)\<lparr>status := failed, processedAt := Some now, updatedAt := now,
          attempts := attempts (heap ?s1 ! r) + 1, error := Some (categorizeError m)\<rparr>)] @ post) \<and>
      filter (\<lambda>t. fst t = r) (timers ?s') = filter (\<lambda>t. fst t = r) (timers ?s1)"
      using f(1) drs f(2) _ rin
    proof (rule 2(1))
      show "Suc (length rs) \<le> deadLetterCapacity" using 2(5) by simp
      show "validateJobData (heap ?s1 ! r) = Inl m" using 2(7) same by simp
      show "\<not> isRetryableError m \<or> maxAttempts (heap ?s1 ! r) \<le> int (attempts (heap ?s1 ! r)) + 1"
        using 2(8) same by simp
    qed
    moreover have "filter (\<lambda>t. fst t = r) (timers ?s1) = filter (\<lambda>t. fst t = r) (timers s)"
      using False by (simp add: processJob_timers_other)
    ultimately show ?thesis
      unfolding same by simp
  qed
qed

lemma failed_not_scheduled:
  assumes inv: "coreInv s" and r: "r < length (heap s)" and st: "status (heap s ! r) = failed"
  shows "r \<notin> set (pendingQueue s)" "r \<notin> set (awaiting s)"
    "jobId (heap s ! r) \<notin> set (processingJobs s)"
proof -
  show "r \<notin> set (pendingQueue s)"
    using inv st unfolding coreInv_def pendingInv_def by auto
  show "r \<notin> set (awaiting s)"
    using inv st unfolding coreInv_def awaitingInv_def by auto
  show "jobId (heap s ! r) \<notin> set (processingJobs s)"
  proof
    assume "jobId (heap s ! r) \<in> set (processingJobs s)"
    then obtain x where x: "x \<in> set (awaiting s)" "jobId (heap s ! x) = jobId (heap s ! r)"
      using inv unfolding coreInv_def awaitingInv_def by auto
    then have "x < length (heap s)" "status (heap s ! x) = processing"
      using inv unfolding coreInv_def refsValid_def awaitingInv_def by auto
    moreover have "distinct (map jobId (heap s))"
      using inv unfolding coreInv_def idsInv_def by blast
    ultimately have "x = r"
      using x(2) r by (meson ids_inj)
    then show False using \<open>status (heap s ! x) = processing\<close> st by simp
  qed
qed

lemma processNextJobs_permanent_failure:
  fixes now :: int and jit :: "nat \<Rightarrow> real"
  assumes inv: "coreInv s" and r: "r \<in> set (jobsToProcess s)"
    and bad: "validateJobData (heap s ! r) = Inl m"
    and perm: "\<not> isRetryableError m \<or> int (attempts (heap s ! r)) + 1 \<ge> maxAttempts (heap s ! r)"
  defines "s' \<equiv> processNextJobs now jit s"
  shows "status (heap s' ! r) = failed"
    and "attempts (heap s' ! r) = attempts (heap s ! r) + 1"
    and "\<exists>d. map_of (deadLetterQueue s') (jobId (heap s ! r)) = Some d \<and> status d = failed \<and>
           jobId d = jobId (heap s ! r) \<and> attempts d = attempts (heap s ! r) + 1 \<and>
           error d = Some (categorizeError m)"
    and "filter (\<lambda>t. fst t = r) (timers s') = filter (\<lambda>t. fst t = r) (timers s)"
    and "r \<notin> set (pendingQueue s')" and "r \<notin> set (awaiting s')"
    and "jobId (heap s ! r) \<notin> set (processingJobs s')"
proof -
  define sorted where "sorted = sort_key (sortKey (heap s)) (pendingQueue s)"
  define k where "k = maxConcurrentJobs - length (processingJobs s)"
  define s1 where "s1 = s\<lparr>pendingQueue := drop k sorted\<rparr>"
  define j where "j = (heap s ! r)\<lparr>status := failed, processedAt := Some now, updatedAt := now,
      attempts := attempts (heap s ! r) + 1, error := Some (categorizeError m)\<rparr>"
  have rt: "r \<in> set (take k sorted)"
    using r unfolding jobsToProcess_def sorted_def k_def .
  then have "k \<noteq> 0" by (cases "k = 0") simp_all
  then have False: "\<not> length (processingJobs s) \<ge> maxConcurrentJobs"
    unfolding k_def by simp
  have kle: "k \<le> maxConcurrentJobs" unfolding k_def by simp
  have pq: "distinct (pendingQueue s)"
    "\<forall>r\<in>set (pendingQueue s). r < length (heap s) \<and> status (heap s ! r) = pending"
    using inv unfolding coreInv_def pendingInv_def refsValid_def by auto
  have ds: "distinct sorted" and ss: "set sorted = set (pendingQueue s)"
    using pq(1) by (simp_all add: sorted_def)
  have dt: "distinct (take k sorted)" and dd: "distinct (drop k sorted)"
    using ds by simp_all
  have disj: "set (take k sorted) \<inter> set (drop k sorted) = {}"
    using ds by (metis append_take_drop_id distinct_append)
  have "set (drop k sorted) \<subseteq> set (pendingQueue s)"
    using set_drop_subset [of k sorted] ss by simp
  then have s1: "coreInv s1"
    unfolding s1_def using inv dd by (intro coreInv_pending_shrink)
  have all: "\<forall>r\<in>set (take k sorted). r < length (heap s1) \<and> status (heap s1 ! r) = pending
      \<and> r \<notin> set (pendingQueue s1)"
  proof
    fix r assume r: "r \<in> set (take k sorted)"
    then have "r \<in> set (pendingQueue s)"
      using set_take_subset [of k sorted] ss by auto
    then show "r < length (heap s1) \<and> status (heap s1 ! r) = pending \<and> r \<notin> set (pendingQueue s1)"
      using pq(2) disj r by (auto simp: s1_def)
  qed
  have eq: "s' = updateQueuePositions (processJobs (take k sorted) now jit s1)"
    unfolding s'_def using False by (simp add: processNextJobs_def Let_def sorted_def k_def s1_def)
  have h1: "heap s1 = heap s" "timers s1 = timers s" by (simp_all add: s1_def)
  have cap: "Suc (length (take k sorted)) \<le> deadLetterCapacity"
    using kle by (simp add: maxConcurrentJobs_def deadLetterCapacity_def)
  have bad1: "validateJobData (heap s1 ! r) = Inl m" using bad h1 by simp
  have perm1: "\<not> isRetryableError m \<or> int (attempts (heap s1 ! r)) + 1 \<ge> maxAttempts (heap s1 ! r)"
    using perm h1 by simp
  note pf = processJobs_permanent_failure [OF s1 dt all cap rt bad1 perm1, of now jit]
  let ?s2 = "processJobs (take k sorted) now jit s1"
  have hp: "heap ?s2 ! r = j" using pf unfolding j_def h1 by blast
  obtain pre post where dq: "deadLetterQueue ?s2 = pre @ [(jobId (heap s ! r), j)] @ post"
    using pf unfolding j_def h1 by blast
  have tm: "filter (\<lambda>t. fst t = r) (timers ?s2) = filter (\<lambda>t. fst t = r) (timers s)"
    using pf unfolding h1 by blast
  have inv': "coreInv s'"
    unfolding s'_def using inv by (rule processNextJobs_coreInv)
  have rv: "r < length (heap s')"
    using all rt by (simp add: eq processJobs_frame)
  show st: "status (heap s' ! r) = failed"
    unfolding eq using hp by (simp add: j_def)
  show "attempts (heap s' ! r) = attempts (heap s ! r) + 1"
    unfolding eq using hp by (simp add: j_def)
  have "distinct (map fst (deadLetterQueue s'))"
    using inv' unfolding coreInv_def deadLetterInv_def by simp
  then have "map_of (deadLetterQueue s') (jobId (heap s ! r)) = Some j"
    unfolding eq using dq by (simp only: updateQueuePositions_simps map_of_middle)
  then show "\<exists>d. map_of (deadLetterQueue s') (jobId (heap s ! r)) = Some d \<and> status d = failed \<and>
           jobId d = jobId (heap s ! r) \<and> attempts d = attempts (heap s ! r) + 1 \<and>
           error d = Some (categorizeError m)"
    by (simp add: j_def)
  show "filter (\<lambda>t. fst t = r) (timers s') = filter (\<lambda>t. fst t = r) (timers s)"
    unfolding eq using tm by simp
  have jid: "jobId (heap s' ! r) = jobId (heap s ! r)"
    unfolding eq using hp by (simp add: j_def)
  show "r \<notin> set (pendingQueue s')" "r \<notin> set (awaiting s')"
    using failed_not_scheduled [OF inv' rv st] by simp_all
  show "jobId (heap s ! r) \<notin> set (processingJobs s')"
    using failed_not_scheduled(3) [OF inv' rv st] jid by simp
qed


lemma status_update: "status (h[r := j] ! x) = (if x = r \<and> r < length h then status j else status (h ! x))"
  by (cases "x = r"; cases "r < length h") (simp_all add: list_update_beyond)

lemma processNextJobs_status_other:
  "x \<notin> set (pendingQueue s) \<Longrightarrow>
   status (heap (processNextJobs now jit s) ! x) = status (heap s ! x)"
proof -
  assume x: "x \<notin> set (pendingQueue s)"
  have "x \<notin> set (take k (sort_key (sortKey (heap s)) (pendingQueue s)))" for k
    using x set_take_subset [of k "sort_key (sortKey (heap s)) (pendingQueue s)"] by auto
  then show ?thesis
    by (simp add: processNextJobs_def Let_def processJobs_frame)
qed

lemma resumeJob_status_other:
  "x \<noteq> r \<Longrightarrow> status (heap (resumeJob r out now jitter s) ! x) = status (heap s ! x)"
  by (simp add: resumeJob_frame)

lemma retryTimer_status_failed:
  "status (heap s ! x) = failed \<Longrightarrow> status (heap (retryTimer r s) ! x) = failed"
  by (cases "x = r") (auto simp add: retryTimer_def Let_def status_update)

lemma cancelJob_status_failed:
  "status (heap s ! x) = failed \<Longrightarrow> status (heap (snd (cancelJob jid now s)) ! x) = failed"
  by (simp add: cancelJob_def Let_def status_update split: option.split)

lemma retryFailedJob_status_old:
  "x < length (heap s) \<Longrightarrow>
   status (heap (snd (retryFailedJob jid ts rnd now s)) ! x) = status (heap s ! x)"
  by (simp add: retryFailedJob_def Let_def nth_append split: option.split)

lemma addJob_status_old:
  "x < length (heap s) \<Longrightarrow> status (heap (snd (addJob jobData ts rnd now s)) ! x) = status (heap s ! x)"
  by (simp add: addJob_def Let_def nth_append)

text \<open>No step of the queue takes a job out of the status \<open>failed\<close>, or shortens the object
  store.\<close>

lemma step_failed_stable:
  assumes inv: "coreInv s" and st: "step e s = Some s'" and x: "x < length (heap s)"
    and f: "status (heap s ! x) = failed"
  shows "status (heap s' ! x) = failed" and "x < length (heap s')"
proof -
  have npq: "x \<notin> set (pendingQueue s)" and naw: "x \<notin> set (awaiting s)"
    using failed_not_scheduled [OF inv x f] by simp_all
  show "status (heap s' ! x) = failed"
  proof (cases e)
    case (EvTick now jit)
    then show ?thesis
      using st f npq by (auto simp: processNextJobs_status_other split: if_splits)
  next
    case (EvOutcome r out now jitter)
    then have "r \<in> set (awaiting s)" "s' = resumeJob r out now jitter s"
      using st by (auto split: if_splits)
    moreover from this naw have "x \<noteq> r" by auto
    ultimately show ?thesis
      using f by (simp add: resumeJob_status_other)
  qed (use st x f in \<open>auto simp: addJob_status_old retryFailedJob_status_old cleanupOldJobs_frame
      clearUserJobs_frame retryTimer_status_failed cancelJob_status_failed split: if_splits\<close>)
  show "x < length (heap s')"
  proof (cases e)
    case (EvTick now jit)
    then show ?thesis
      using st x by (auto simp: processNextJobs_def Let_def processJobs_frame split: if_splits)
  qed (use st x in \<open>auto simp: addJob_def retryFailedJob_def Let_def cleanupOldJobs_frame
      clearUserJobs_frame resumeJob_frame retryTimer_def cancelJob_frame split: if_splits option.splits\<close>)
qed

lemma run_failed_stable:
  "coreInv s \<Longrightarrow> run es s = Some s' \<Longrightarrow> x < length (heap s) \<Longrightarrow> status (heap s ! x) = failed \<Longrightarrow>
   status (heap s' ! x) = failed \<and> x < length (heap s') \<and> x \<notin> set (pendingQueue s')"
proof (induction es arbitrary: s)
  case Nil
  then show ?case
    using failed_not_scheduled(1) [of s x] by simp
next
  case (Cons e es)
  from Cons(3) obtain s1 where s1: "step e s = Some s1" "run es s1 = Some s'"
    by (auto split: option.splits)
  have "coreInv s1" using Cons(2) s1(1) by (rule step_coreInv)
  moreover note s1(2)
  moreover have "x < length (heap s1)" "status (heap s1 ! x) = failed"
    using step_failed_stable [OF Cons(2) s1(1) Cons(4) Cons(5)] by simp_all
  ultimately show ?case by (rule Cons(1))
qed

lemma setPositions_payload [simp]:
  "jdata (setPositions rs i h ! x) = jdata (h ! x)"
  "jtype (setPositions rs i h ! x) = jtype (h ! x)"
  by (rule setPositions_proj, simp)+

lemma addJob_payload:
  "jdata (heap (snd (addJob jd ts rnd now s)) ! length (heap s)) = in_data jd"
  "jtype (heap (snd (addJob jd ts rnd now s)) ! length (heap s)) = in_type jd"
  by (simp_all add: addJob_def Let_def newJob_def updateQueuePositions_def)

lemma isAddress_nonempty: "isAddress a \<Longrightarrow> a \<noteq> []"
  by (auto simp: isAddress_def)
section \<open>Status queries\<close>

text \<open>
  C10. \<open>getJob\<close> reads the main store first and the dead-letter store only when the id
  is absent from the main store. The retention sweeper \<open>cleanupOldJobs\<close> leaves the
  dead-letter store and the job objects as they are, so an id held in the dead-letter
  store is still answered after the sweeper has deleted it from the main store; while
  the id is in the main store, the main-store record is the answer.
\<close>

theorem getJob_main_store_then_dead_letter:
  "(map_of (jobs s) jid = Some r \<longrightarrow> getJob jid s = Some (heap s ! r)) \<and>
   (map_of (jobs s) jid = None \<longrightarrow> getJob jid s = map_of (deadLetterQueue s) jid) \<and>
   deadLetterQueue (cleanupOldJobs now s) = deadLetterQueue s \<and>
   heap (cleanupOldJobs now s) = heap s \<and>
   (jid \<in> fst ` set (deadLetterQueue s) \<longrightarrow> getJob jid (cleanupOldJobs now s) \<noteq> None) \<and>
   (jid \<in> fst ` set (deadLetterQueue s) \<and> map_of (jobs (cleanupOldJobs now s)) jid = None \<longrightarrow>
      getJob jid (cleanupOldJobs now s) = map_of (deadLetterQueue s) jid)"
proof -
  have dl: "deadLetterQueue (cleanupOldJobs now s) = deadLetterQueue s"
    and hp: "heap (cleanupOldJobs now s) = heap s"
    by (simp_all add: cleanupOldJobs_def Let_def)
  have found: "jid \<in> fst ` set (deadLetterQueue s) \<Longrightarrow> map_of (deadLetterQueue s) jid \<noteq> None"
    by (simp add: map_of_eq_None_iff)
  have "jid \<in> fst ` set (deadLetterQueue s) \<Longrightarrow> getJob jid (cleanupOldJobs now s) \<noteq> None"
    using found by (simp add: getJob_def dl split: option.split)
  then show ?thesis
    by (simp add: getJob_def dl hp split: option.split)
qed

theorem getJob_main_store_then_dead_letter_witness:
  "map_of (jobs exDead) ''job_1_a'' = Some 0 \<and>
   getJob ''job_1_a'' exDead = Some (heap exDead ! 0) \<and>
   ''job_1_a'' \<in> fst ` set (deadLetterQueue exDead) \<and>
   map_of (jobs (cleanupOldJobs 100000000 exDead)) ''job_1_a'' = None \<and>
   getJob ''job_1_a'' (cleanupOldJobs 100000000 exDead) = map_of (deadLetterQueue exDead) ''job_1_a'' \<and>
   getJob ''job_1_a'' (cleanupOldJobs 100000000 exDead) \<noteq> None"
proof -
  have main: "map_of (jobs exDead) ''job_1_a'' = Some 0"
    by code_simp
  have dead: "''job_1_a'' \<in> fst ` set (deadLetterQueue exDead)"
    by code_simp
  have swept: "map_of (jobs (cleanupOldJobs 100000000 exDead)) ''job_1_a'' = None"
    by code_simp
  show ?thesis
    using getJob_main_store_then_dead_letter [of exDead "''job_1_a''" 0 100000000] main dead swept
    by auto
qed

section \<open>Retry backoff\<close>

text \<open>
  C8. On a retryable failure below the attempt ceiling the retry branch schedules the
  re-entry after \<open>min(1000 * 2^attempts, 30000) + jitter\<close> milliseconds, the jitter
  lying in \<open>[0, 1000)\<close>; with a jitter of zero the delay does not decrease when the
  attempts counter grows, and it never passes the cap of 30000.
\<close>

theorem retry_delay_is_capped_exponential_plus_jitter:
  "(isRetryableError message \<and> int (attempts (heap s ! r)) < maxAttempts (heap s ! r)
      \<and> jitterOk jitter \<longrightarrow>
      timers (handleFailure r message now jitter s) =
        timers s @ [(r, min (1000 * 2 ^ attempts (heap s ! r)) 30000 + jitter)]
      \<and> 0 \<le> jitter \<and> jitter < 1000) \<and>
   (m \<le> n \<longrightarrow> backoffDelay m 0 \<le> backoffDelay n 0) \<and>
   backoffDelay n 0 \<le> 30000 \<and>
   backoffDelay n 0 = min (1000 * 2 ^ n) 30000"
proof -
  have sched: "timers (handleFailure r message now jitter s) =
      timers s @ [(r, min (1000 * 2 ^ attempts (heap s ! r)) 30000 + jitter)]"
    if "isRetryableError message" "int (attempts (heap s ! r)) < maxAttempts (heap s ! r)"
    using that by (simp add: handleFailure_def Let_def backoffDelay_def)
  have mono: "backoffDelay m 0 \<le> backoffDelay n 0" if "m \<le> n"
  proof -
    have "(2::real) ^ m \<le> 2 ^ n"
      using that by (simp add: power_increasing)
    then have "1000 * (2::real) ^ m \<le> 1000 * 2 ^ n"
      by simp
    then have "min (1000 * (2::real) ^ m) 30000 \<le> min (1000 * 2 ^ n) 30000"
      by (rule min.mono) simp
    then show ?thesis
      by (simp add: backoffDelay_def)
  qed
  have cap: "backoffDelay n 0 \<le> 30000"
    by (simp add: backoffDelay_def)
  show ?thesis
    using sched mono cap by (simp add: jitterOk_def backoffDelay_def)
qed

theorem retry_delay_is_capped_exponential_plus_jitter_witness:
  "isRetryableError ''network timeout'' \<and>
   int (attempts (heap exDispatched ! 0)) < maxAttempts (heap exDispatched ! 0) \<and>
   jitterOk 250 \<and>
   timers (handleFailure 0 ''network timeout'' 4 250 exDispatched) = [(0, 2250)] \<and>
   backoffDelay 1 0 \<le> backoffDelay 5 0 \<and> backoffDelay 5 0 = 30000"
proof -
  have retryable: "isRetryableError ''network timeout''"
    by code_simp
  have att: "attempts (heap exDispatched ! 0) = 1" and mx: "maxAttempts (heap exDispatched ! 0) = 3"
    and tm: "timers exDispatched = []"
    by code_simp+
  have jit: "jitterOk 250"
    by (simp add: jitterOk_def)
  show ?thesis
    using retry_delay_is_capped_exponential_plus_jitter
      [of "''network timeout''" exDispatched 0 250 4 1 5] retryable att mx tm jit
    by simp
qed

section \<open>Bounded concurrency\<close>

text \<open>
  C3. In every state the queue can reach, the in-flight set holds at most
  \<open>maxConcurrentJobs = 3\<close> ids, without duplicates, one for each suspended execution.
  A dispatch pass takes at most \<open>maxConcurrentJobs\<close> minus the size of the in-flight set
  jobs from the sorted pending queue (none at all when the set is full), the jobs it takes
  are never in the in-flight set, and \<open>processJob\<close> on a job whose id is in the in-flight
  set returns at its guard without any effect.
\<close>

theorem in_flight_set_never_exceeds_ceiling:
  "maxConcurrentJobs = 3 \<and>
   (run es emptyQueue = Some s \<longrightarrow>
      length (processingJobs s) \<le> maxConcurrentJobs \<and> distinct (processingJobs s) \<and>
      length (awaiting s) = length (processingJobs s) \<and>
      (\<forall>r\<in>set (jobsToProcess s). jobId (heap s ! r) \<notin> set (processingJobs s))) \<and>
   length (jobsToProcess s) \<le> maxConcurrentJobs - length (processingJobs s) \<and>
   (length (processingJobs s) < maxConcurrentJobs \<longrightarrow>
      processNextJobs now jit s =
        updateQueuePositions (processJobs (jobsToProcess s) now jit
          (s\<lparr>pendingQueue := drop (maxConcurrentJobs - length (processingJobs s))
                (sort_key (sortKey (heap s)) (pendingQueue s))\<rparr>))) \<and>
   (length (processingJobs s) \<ge> maxConcurrentJobs \<longrightarrow> processNextJobs now jit s = s) \<and>
   (jobId (heap s ! r) \<in> set (processingJobs s) \<longrightarrow> processJob r now jitter s = s)"
proof -
  have reach: "length (processingJobs s) \<le> maxConcurrentJobs \<and> distinct (processingJobs s) \<and>
      length (awaiting s) = length (processingJobs s) \<and>
      (\<forall>r\<in>set (jobsToProcess s). jobId (heap s ! r) \<notin> set (processingJobs s))"
    if run: "run es emptyQueue = Some s"
  proof -
    have inv: "coreInv s"
      using run by (rule run_emptyQueue_coreInv)
    have "length (processingJobs emptyQueue) \<le> maxConcurrentJobs"
      by (simp add: emptyQueue_def)
    then have "length (processingJobs s) \<le> maxConcurrentJobs"
      using run by (rule run_flight_bound)
    moreover have "distinct (processingJobs s)"
      using inv unfolding coreInv_def awaitingInv_def by blast
    moreover have "\<forall>r\<in>set (jobsToProcess s). jobId (heap s ! r) \<notin> set (processingJobs s)"
      using pending_not_in_flight [OF inv] jobsToProcess_subset [of s] by blast
    ultimately show ?thesis
      using awaiting_length [OF inv] by simp
  qed
  have take: "length (jobsToProcess s) \<le> maxConcurrentJobs - length (processingJobs s)"
    by (simp add: jobsToProcess_def)
  have pass: "processNextJobs now jit s =
        updateQueuePositions (processJobs (jobsToProcess s) now jit
          (s\<lparr>pendingQueue := drop (maxConcurrentJobs - length (processingJobs s))
                (sort_key (sortKey (heap s)) (pendingQueue s))\<rparr>))"
    if "length (processingJobs s) < maxConcurrentJobs"
    using that by (simp add: processNextJobs_def jobsToProcess_def Let_def)
  have skip: "processNextJobs now jit s = s" if "length (processingJobs s) \<ge> maxConcurrentJobs"
    using that by (simp add: processNextJobs_def)
  have guard: "processJob r now jitter s = s" if "jobId (heap s ! r) \<in> set (processingJobs s)"
    using that by (simp add: processJob_def)
  show ?thesis
    using reach take pass skip guard by (simp add: maxConcurrentJobs_def)
qed

theorem in_flight_set_never_exceeds_ceiling_witness:
  "run exFour emptyQueue = Some exBusy \<and>
   length (processingJobs exBusy) = 3 \<and> length (pendingQueue exBusy) = 1 \<and>
   length (processingJobs exBusy) \<ge> maxConcurrentJobs \<and>
   processNextJobs 6 (\<lambda>_. 0) exBusy = exBusy \<and>
   jobId (heap exBusy ! 0) \<in> set (processingJobs exBusy) \<and>
   processJob 0 6 0 exBusy = exBusy \<and>
   run (exFour @ [EvOutcome 0 (Submitted ''0xabc'') 6 0]) emptyQueue = Some exFreed \<and>
   length (processingJobs exFreed) = 2 \<and> length (awaiting exFreed) = 2 \<and>
   length (processingJobs exFreed) < maxConcurrentJobs \<and>
   jobsToProcess exFreed = [3] \<and>
   jobId (heap exFreed ! 3) \<notin> set (processingJobs exFreed)"
proof -
  have "run exFour emptyQueue \<noteq> None"
    by code_simp
  then have run: "run exFour emptyQueue = Some exBusy"
    by (auto simp: exBusy_def)
  have "run (exFour @ [EvOutcome 0 (Submitted ''0xabc'') 6 0]) emptyQueue \<noteq> None"
    by code_simp
  then have run2: "run (exFour @ [EvOutcome 0 (Submitted ''0xabc'') 6 0]) emptyQueue = Some exFreed"
    by (auto simp: exFreed_def)
  have facts: "length (processingJobs exBusy) = 3" "length (pendingQueue exBusy) = 1"
    "jobId (heap exBusy ! 0) \<in> set (processingJobs exBusy)"
    "length (processingJobs exFreed) = 2" "jobsToProcess exFreed = [3]"
    by code_simp+
  have ge: "length (processingJobs exBusy) \<ge> maxConcurrentJobs"
    and lt: "length (processingJobs exFreed) < maxConcurrentJobs"
    and mem: "3 \<in> set (jobsToProcess exFreed)"
    using facts by (simp_all add: maxConcurrentJobs_def)
  note busy = in_flight_set_never_exceeds_ceiling [of exFour exBusy 6 "\<lambda>_. 0" 0 0]
  note freed = in_flight_set_never_exceeds_ceiling
        [of "exFour @ [EvOutcome 0 (Submitted ''0xabc'') 6 0]" exFreed 6 "\<lambda>_. 0" 0 0]
  have "processNextJobs 6 (\<lambda>_. 0) exBusy = exBusy" "processJob 0 6 0 exBusy = exBusy"
    using busy ge facts(3) by blast+
  moreover have "length (awaiting exFreed) = length (processingJobs exFreed)"
    "jobId (heap exFreed ! 3) \<notin> set (processingJobs exFreed)"
    using freed run2 mem by blast+
  ultimately show ?thesis
    using run run2 facts ge lt by simp
qed

section \<open>Dead-letter store\<close>

text \<open>
  C7. The dead-letter store has a capacity of 100. In every state the queue can reach it
  holds at most 100 entries, under pairwise different, non-empty ids. An insertion into a
  full store under a new id removes exactly the first (oldest) entry and appends the new
  one, leaving every other entry in place; an insertion below capacity removes nothing.
\<close>

theorem dead_letter_store_bounded_fifo:
  "deadLetterCapacity = 100 \<and>
   (run es emptyQueue = Some s \<longrightarrow>
      length (deadLetterQueue s) \<le> deadLetterCapacity \<and>
      distinct (map fst (deadLetterQueue s)) \<and> [] \<notin> fst ` set (deadLetterQueue s)) \<and>
   (distinct (map fst (deadLetterQueue s)) \<and> [] \<notin> fst ` set (deadLetterQueue s) \<and>
    length (deadLetterQueue s) = deadLetterCapacity \<and>
    jobId (heap s ! r) \<notin> fst ` set (deadLetterQueue s) \<longrightarrow>
      deadLetterQueue (moveToDeadLetterQueue r now s) =
        tl (deadLetterQueue s) @
          [(jobId (heap s ! r), (heap s ! r)\<lparr>status := failed, updatedAt := now\<rparr>)] \<and>
      length (deadLetterQueue (moveToDeadLetterQueue r now s)) = deadLetterCapacity) \<and>
   (length (deadLetterQueue s) < deadLetterCapacity \<longrightarrow>
      deadLetterQueue (moveToDeadLetterQueue r now s) =
        AList.update (jobId (heap s ! r)) ((heap s ! r)\<lparr>status := failed, updatedAt := now\<rparr>)
          (deadLetterQueue s))"
proof -
  have reach: "length (deadLetterQueue s) \<le> deadLetterCapacity \<and>
      distinct (map fst (deadLetterQueue s)) \<and> [] \<notin> fst ` set (deadLetterQueue s)"
    if "run es emptyQueue = Some s"
  proof -
    have "deadLetterInv s"
      using run_emptyQueue_coreInv [OF that] unfolding coreInv_def by blast
    then show ?thesis
      unfolding deadLetterInv_def by auto
  qed
  have evict: "deadLetterQueue (moveToDeadLetterQueue r now s) =
        tl (deadLetterQueue s) @
          [(jobId (heap s ! r), (heap s ! r)\<lparr>status := failed, updatedAt := now\<rparr>)] \<and>
      length (deadLetterQueue (moveToDeadLetterQueue r now s)) = deadLetterCapacity"
    if "distinct (map fst (deadLetterQueue s))" "[] \<notin> fst ` set (deadLetterQueue s)"
      "length (deadLetterQueue s) = deadLetterCapacity"
      "jobId (heap s ! r) \<notin> fst ` set (deadLetterQueue s)"
    using moveToDeadLetterQueue_full [OF that, of now] that(3)
    by (simp add: deadLetterCapacity_def)
  show ?thesis
    using reach evict moveToDeadLetterQueue_below [of s r now]
    by (simp add: deadLetterCapacity_def)
qed

theorem dead_letter_store_bounded_fifo_witness:
  "run [EvAddJob exInput ''1'' ''a'' 1, EvTick 3 (\<lambda>_. 0),
        EvOutcome 0 (Threw ''insufficient funds for gas'') 4 0] emptyQueue = Some exDead \<and>
   length (deadLetterQueue exDead) = 1 \<and>
   length (deadLetterQueue exDead) \<le> deadLetterCapacity \<and>
   length (deadLetterQueue exDead) < deadLetterCapacity \<and>
   distinct (map fst (deadLetterQueue exFullDead)) \<and>
   [] \<notin> fst ` set (deadLetterQueue exFullDead) \<and>
   length (deadLetterQueue exFullDead) = deadLetterCapacity \<and>
   jobId (heap exFullDead ! 0) \<notin> fst ` set (deadLetterQueue exFullDead) \<and>
   deadLetterQueue (moveToDeadLetterQueue 0 9 exFullDead) =
     tl (deadLetterQueue exFullDead) @
       [(''job_new_b'', (heap exFullDead ! 0)\<lparr>status := failed, updatedAt := 9\<rparr>)] \<and>
   length (deadLetterQueue (moveToDeadLetterQueue 0 9 exFullDead)) = 100"
proof -
  have "run [EvAddJob exInput ''1'' ''a'' 1, EvTick 3 (\<lambda>_. 0),
        EvOutcome 0 (Threw ''insufficient funds for gas'') 4 0] emptyQueue \<noteq> None"
    by code_simp
  then have run: "run [EvAddJob exInput ''1'' ''a'' 1, EvTick 3 (\<lambda>_. 0),
        EvOutcome 0 (Threw ''insufficient funds for gas'') 4 0] emptyQueue = Some exDead"
    by (auto simp: exDead_def)
  have one: "length (deadLetterQueue exDead) = 1"
    by code_simp
  then have lt: "length (deadLetterQueue exDead) < deadLetterCapacity"
    by (simp add: deadLetterCapacity_def)
  have keys: "map fst (deadLetterQueue exFullDead) = map exKey [0..<100]"
    by (simp add: exFullDead_def comp_def)
  have dist: "distinct (map fst (deadLetterQueue exFullDead))"
    unfolding keys using exKey_inj by (simp add: distinct_map inj_on_def inj_def)
  have ne: "[] \<notin> fst ` set (deadLetterQueue exFullDead)"
    using keys by (metis (no_types, lifting) ex_map_conv exKey_def generateJobId_nonempty(1) list.set_map)
  have full: "length (deadLetterQueue exFullDead) = deadLetterCapacity"
    by (simp add: exFullDead_def deadLetterCapacity_def)
  have newid: "jobId (heap exFullDead ! 0) = ''job_new_b''"
    by (simp add: exFullDead_def newJob_def)
  have "''job_new_b'' \<noteq> exKey i" for i
    by (simp add: exKey_def generateJobId_def)
  then have new: "jobId (heap exFullDead ! 0) \<notin> fst ` set (deadLetterQueue exFullDead)"
    unfolding newid using keys by (metis (no_types, lifting) ex_map_conv list.set_map)
  note below = dead_letter_store_bounded_fifo [of _ exDead 0 0]
  note evict = dead_letter_store_bounded_fifo [of "[]" exFullDead 0 9]
  have "length (deadLetterQueue exDead) \<le> deadLetterCapacity"
    using below run by blast
  moreover have "deadLetterQueue (moveToDeadLetterQueue 0 9 exFullDead) =
     tl (deadLetterQueue exFullDead) @
       [(jobId (heap exFullDead ! 0), (heap exFullDead ! 0)\<lparr>status := failed, updatedAt := 9\<rparr>)]"
    "length (deadLetterQueue (moveToDeadLetterQueue 0 9 exFullDead)) = deadLetterCapacity"
    using evict dist ne full new by blast+
  ultimately show ?thesis
    using run one lt dist ne full new by (simp add: newid deadLetterCapacity_def)
qed

section \<open>Attempts and retries\<close>

text \<open>
  C2. In every state the queue can reach, a job submitted with \<open>maxAttempts \<ge> 1\<close> has
  \<open>attempts \<le> maxAttempts\<close>, and \<open>attempts < maxAttempts\<close> while it is in the pending
  queue or waits for its retry timer. One step of the queue changes the counter of a job
  by exactly one when the step is a dispatch pass that takes the job, and not at all
  otherwise (no outcome, retry decision, timer, cancellation or cleanup touches it).

  An execution attempt can fail at two places of \<open>processJob\<close>, both inside the same
  \<open>try\<close>: after the first \<open>await\<close>, when the awaited work throws (\<open>resumeJob\<close> with
  \<open>Threw m\<close>), and before it, when \<open>validateJobData\<close> throws during the dispatch pass
  itself. In both cases, whatever the message, a failure of the attempt that brings the
  counter to \<open>maxAttempts\<close> or beyond gives the job status \<open>failed\<close> and leaves an entry
  under the job's id in the dead-letter store, with status \<open>failed\<close> and the same
  counter; no retry timer is set for the job, the job is not in the pending queue, and
  whatever the queue does afterwards the job stays \<open>failed\<close> and never returns to the
  pending queue. The last part of the statement is the synchronous case for an arbitrary
  state and a direct call of \<open>processJob\<close>.
\<close>

theorem attempts_never_exceed_maxAttempts:
  "(run es emptyQueue = Some s \<and> r < length (heap s) \<and> 1 \<le> maxAttempts (heap s ! r) \<longrightarrow>
      int (attempts (heap s ! r)) \<le> maxAttempts (heap s ! r) \<and>
      (r \<in> set (pendingQueue s) \<longrightarrow> int (attempts (heap s ! r)) < maxAttempts (heap s ! r)) \<and>
      (status (heap s ! r) = retrying \<longrightarrow> int (attempts (heap s ! r)) < maxAttempts (heap s ! r))) \<and>
   (run es emptyQueue = Some s \<and> step e s = Some s' \<and> r < length (heap s) \<longrightarrow>
      attempts (heap s' ! r) = attempts (heap s ! r) +
        (case e of EvTick now jit \<Rightarrow> if r \<in> set (jobsToProcess s) then 1 else 0 | _ \<Rightarrow> 0)) \<and>
   (run es emptyQueue = Some s \<and> r \<in> set (awaiting s) \<and>
    int (attempts (heap s ! r)) \<ge> maxAttempts (heap s ! r) \<and>
    run es' (resumeJob r (Threw m) now jitter s) = Some s'' \<longrightarrow>
      status (heap (resumeJob r (Threw m) now jitter s) ! r) = failed \<and>
      attempts (heap (resumeJob r (Threw m) now jitter s) ! r) = attempts (heap s ! r) \<and>
      (\<exists>d. map_of (deadLetterQueue (resumeJob r (Threw m) now jitter s)) (jobId (heap s ! r)) = Some d \<and>
           status d = failed \<and> jobId d = jobId (heap s ! r) \<and> attempts d = attempts (heap s ! r)) \<and>
      r \<notin> set (pendingQueue (resumeJob r (Threw m) now jitter s)) \<and>
      timers (resumeJob r (Threw m) now jitter s) = timers s \<and>
      status (heap s'' ! r) = failed \<and> r \<notin> set (pendingQueue s'')) \<and>
   (run es emptyQueue = Some s \<and> r \<in> set (jobsToProcess s) \<and>
    validateJobData (heap s ! r) = Inl m \<and>
    int (attempts (heap s ! r)) + 1 \<ge> maxAttempts (heap s ! r) \<and>
    run es' (processNextJobs now jit s) = Some s'' \<longrightarrow>
      status (heap (processNextJobs now jit s) ! r) = failed \<and>
      attempts (heap (processNextJobs now jit s) ! r) = attempts (heap s ! r) + 1 \<and>
      (\<exists>d. map_of (deadLetterQueue (processNextJobs now jit s)) (jobId (heap s ! r)) = Some d \<and>
           status d = failed \<and> jobId d = jobId (heap s ! r) \<and>
           attempts d = attempts (heap s ! r) + 1) \<and>
      r \<notin> set (pendingQueue (processNextJobs now jit s)) \<and>
      r \<notin> set (awaiting (processNextJobs now jit s)) \<and>
      jobId (heap s ! r) \<notin> set (processingJobs (processNextJobs now jit s)) \<and>
      filter (\<lambda>t. fst t = r) (timers (processNextJobs now jit s)) =
        filter (\<lambda>t. fst t = r) (timers s) \<and>
      status (heap s'' ! r) = failed \<and> r \<notin> set (pendingQueue s'')) \<and>
   (r < length (heap s) \<and> jobId (heap s ! r) \<notin> set (processingJobs s) \<and>
    length (deadLetterQueue s) \<le> deadLetterCapacity \<and>
    validateJobData (heap s ! r) = Inl m \<and>
    int (attempts (heap s ! r)) + 1 \<ge> maxAttempts (heap s ! r) \<longrightarrow>
      status (heap (processJob r now jitter s) ! r) = failed \<and>
      attempts (heap (processJob r now jitter s) ! r) = attempts (heap s ! r) + 1 \<and>
      (\<exists>d. map_of (deadLetterQueue (processJob r now jitter s)) (jobId (heap s ! r)) = Some d \<and>
           status d = failed \<and> jobId d = jobId (heap s ! r) \<and>
           attempts d = attempts (heap s ! r) + 1) \<and>
      timers (processJob r now jitter s) = timers s \<and>
      pendingQueue (processJob r now jitter s) = pendingQueue s \<and>
      processingJobs (processJob r now jitter s) = processingJobs s \<and>
      awaiting (processJob r now jitter s) = awaiting s)"
proof -
  have bound: "int (attempts (heap s ! r)) \<le> maxAttempts (heap s ! r) \<and>
      (r \<in> set (pendingQueue s) \<longrightarrow> int (attempts (heap s ! r)) < maxAttempts (heap s ! r)) \<and>
      (status (heap s ! r) = retrying \<longrightarrow> int (attempts (heap s ! r)) < maxAttempts (heap s ! r))"
    if run: "run es emptyQueue = Some s" and r: "r < length (heap s)" "1 \<le> maxAttempts (heap s ! r)"
  proof -
    have inv: "coreInv s"
      using run by (rule run_emptyQueue_coreInv)
    have att: "int (attempts (heap s ! r)) \<le> maxAttempts (heap s ! r)"
      "status (heap s ! r) \<in> {pending, retrying} \<longrightarrow> int (attempts (heap s ! r)) < maxAttempts (heap s ! r)"
      using inv r unfolding coreInv_def attemptsInv_def by blast+
    have "r \<in> set (pendingQueue s) \<longrightarrow> status (heap s ! r) = pending"
      using inv unfolding coreInv_def pendingInv_def by blast
    then show ?thesis
      using att by auto
  qed
  have once: "attempts (heap s' ! r) = attempts (heap s ! r) +
        (case e of EvTick now jit \<Rightarrow> if r \<in> set (jobsToProcess s) then 1 else 0 | _ \<Rightarrow> 0)"
    if "run es emptyQueue = Some s" "step e s = Some s'" "r < length (heap s)"
    using run_emptyQueue_coreInv [OF that(1)] that(2,3) by (rule step_attempts)
  have async: "status (heap (resumeJob r (Threw m) now jitter s) ! r) = failed \<and>
      attempts (heap (resumeJob r (Threw m) now jitter s) ! r) = attempts (heap s ! r) \<and>
      (\<exists>d. map_of (deadLetterQueue (resumeJob r (Threw m) now jitter s)) (jobId (heap s ! r)) = Some d \<and>
           status d = failed \<and> jobId d = jobId (heap s ! r) \<and> attempts d = attempts (heap s ! r)) \<and>
      r \<notin> set (pendingQueue (resumeJob r (Threw m) now jitter s)) \<and>
      timers (resumeJob r (Threw m) now jitter s) = timers s \<and>
      status (heap s'' ! r) = failed \<and> r \<notin> set (pendingQueue s'')"
    if run: "run es emptyQueue = Some s" and r: "r \<in> set (awaiting s)"
      and ex: "int (attempts (heap s ! r)) \<ge> maxAttempts (heap s ! r)"
      and after: "run es' (resumeJob r (Threw m) now jitter s) = Some s''"
  proof -
    let ?s' = "resumeJob r (Threw m) now jitter s"
    have inv: "coreInv s"
      using run by (rule run_emptyQueue_coreInv)
    have inv': "coreInv ?s'"
      using inv r by (rule resumeJob_coreInv)
    have perm: "\<not> isRetryableError m \<or> int (attempts (heap s ! r)) \<ge> maxAttempts (heap s ! r)"
      using ex by simp
    note f = resumeJob_permanent_failure [OF inv r perm, of now jitter]
    have rv: "r < length (heap ?s')"
      using inv r unfolding coreInv_def refsValid_def by (simp add: resumeJob_frame)
    have st: "status (heap ?s' ! r) = failed"
      by (simp add: f(1))
    have jid: "jobId (heap ?s' ! r) = jobId (heap s ! r)"
      by (simp add: resumeJob_frame)
    have "map_of (deadLetterQueue ?s') (jobId (heap s ! r)) = Some (heap ?s' ! r) \<and>
        status (heap ?s' ! r) = failed \<and> jobId (heap ?s' ! r) = jobId (heap s ! r) \<and>
        attempts (heap ?s' ! r) = attempts (heap s ! r)"
      using f(2) st jid by simp
    then have ex: "\<exists>d. map_of (deadLetterQueue ?s') (jobId (heap s ! r)) = Some d \<and>
           status d = failed \<and> jobId d = jobId (heap s ! r) \<and> attempts d = attempts (heap s ! r)"
      by blast
    have "status (heap s'' ! r) = failed \<and> r < length (heap s'') \<and> r \<notin> set (pendingQueue s'')"
      using inv' after rv st by (rule run_failed_stable)
    then show ?thesis
      using st ex f(3,5) by simp
  qed
  have sync: "status (heap (processNextJobs now jit s) ! r) = failed \<and>
      attempts (heap (processNextJobs now jit s) ! r) = attempts (heap s ! r) + 1 \<and>
      (\<exists>d. map_of (deadLetterQueue (processNextJobs now jit s)) (jobId (heap s ! r)) = Some d \<and>
           status d = failed \<and> jobId d = jobId (heap s ! r) \<and>
           attempts d = attempts (heap s ! r) + 1) \<and>
      r \<notin> set (pendingQueue (processNextJobs now jit s)) \<and>
      r \<notin> set (awaiting (processNextJobs now jit s)) \<and>
      jobId (heap s ! r) \<notin> set (processingJobs (processNextJobs now jit s)) \<and>
      filter (\<lambda>t. fst t = r) (timers (processNextJobs now jit s)) =
        filter (\<lambda>t. fst t = r) (timers s) \<and>
      status (heap s'' ! r) = failed \<and> r \<notin> set (pendingQueue s'')"
    if run: "run es emptyQueue = Some s" and r: "r \<in> set (jobsToProcess s)"
      and bad: "validateJobData (heap s ! r) = Inl m"
      and ex: "int (attempts (heap s ! r)) + 1 \<ge> maxAttempts (heap s ! r)"
      and after: "run es' (processNextJobs now jit s) = Some s''"
  proof -
    let ?s' = "processNextJobs now jit s"
    have inv: "coreInv s"
      using run by (rule run_emptyQueue_coreInv)
    have inv': "coreInv ?s'"
      using inv by (rule processNextJobs_coreInv)
    have perm: "\<not> isRetryableError m \<or> int (attempts (heap s ! r)) + 1 \<ge> maxAttempts (heap s ! r)"
      using ex by simp
    note f = processNextJobs_permanent_failure [OF inv r bad perm, of now jit]
    have "r \<in> set (pendingQueue s)"
      using r jobsToProcess_subset by blast
    then have "r < length (heap s)"
      using inv unfolding coreInv_def refsValid_def by blast
    then have rv: "r < length (heap ?s')"
      by (simp add: processNextJobs_def Let_def processJobs_frame)
    have "status (heap s'' ! r) = failed \<and> r < length (heap s'') \<and> r \<notin> set (pendingQueue s'')"
      using inv' after rv f(1) by (rule run_failed_stable)
    moreover have "\<exists>d. map_of (deadLetterQueue ?s') (jobId (heap s ! r)) = Some d \<and>
           status d = failed \<and> jobId d = jobId (heap s ! r) \<and>
           attempts d = attempts (heap s ! r) + 1"
      using f(3) by blast
    ultimately show ?thesis
      using f(1,2,4,5,6,7) by simp
  qed
  have call: "status (heap (processJob r now jitter s) ! r) = failed \<and>
      attempts (heap (processJob r now jitter s) ! r) = attempts (heap s ! r) + 1 \<and>
      (\<exists>d. map_of (deadLetterQueue (processJob r now jitter s)) (jobId (heap s ! r)) = Some d \<and>
           status d = failed \<and> jobId d = jobId (heap s ! r) \<and>
           attempts d = attempts (heap s ! r) + 1) \<and>
      timers (processJob r now jitter s) = timers s \<and>
      pendingQueue (processJob r now jitter s) = pendingQueue s \<and>
      processingJobs (processJob r now jitter s) = processingJobs s \<and>
      awaiting (processJob r now jitter s) = awaiting s"
    if r: "r < length (heap s)" and nf: "jobId (heap s ! r) \<notin> set (processingJobs s)"
      and len: "length (deadLetterQueue s) \<le> deadLetterCapacity"
      and bad: "validateJobData (heap s ! r) = Inl m"
      and ex: "int (attempts (heap s ! r)) + 1 \<ge> maxAttempts (heap s ! r)"
  proof -
    have perm: "\<not> isRetryableError m \<or> int (attempts (heap s ! r)) + 1 \<ge> maxAttempts (heap s ! r)"
      using ex by simp
    note f = processJob_permanent_failure [OF r nf len bad perm, of now jitter]
    have "\<exists>d. map_of (deadLetterQueue (processJob r now jitter s)) (jobId (heap s ! r)) = Some d \<and>
           status d = failed \<and> jobId d = jobId (heap s ! r) \<and>
           attempts d = attempts (heap s ! r) + 1"
      using f(3) by simp
    then show ?thesis
      using f(1,4,5,6,7) by simp
  qed
  show ?thesis
    using bound once async sync call by blast
qed


theorem attempts_never_exceed_maxAttempts_witness:
  "run exTwoTimeouts emptyQueue = Some exSecondRetry \<and>
   pendingQueue exSecondRetry = [0] \<and> maxAttempts (heap exSecondRetry ! 0) = 3 \<and>
   attempts (heap exSecondRetry ! 0) = 2 \<and>
   step (EvTick 6 (\<lambda>_. 0)) exSecondRetry = Some exLastAttempt \<and>
   jobsToProcess exSecondRetry = [0] \<and>
   attempts (heap exLastAttempt ! 0) = 3 \<and>
   run (exTwoTimeouts @ [EvTick 6 (\<lambda>_. 0)]) emptyQueue = Some exLastAttempt \<and>
   awaiting exLastAttempt = [0] \<and>
   int (attempts (heap exLastAttempt ! 0)) \<ge> maxAttempts (heap exLastAttempt ! 0) \<and>
   status (heap (resumeJob 0 (Threw ''network timeout'') 7 0 exLastAttempt) ! 0) = failed \<and>
   (\<exists>d. map_of (deadLetterQueue (resumeJob 0 (Threw ''network timeout'') 7 0 exLastAttempt)) ''job_1_a'' =
      Some d \<and> status d = failed \<and> attempts d = 3) \<and>
   0 \<notin> set (pendingQueue (resumeJob 0 (Threw ''network timeout'') 7 0 exLastAttempt)) \<and>
   timers (resumeJob 0 (Threw ''network timeout'') 7 0 exLastAttempt) = [] \<and>
   (\<exists>t. run [EvTick 9 (\<lambda>_. 0)] (resumeJob 0 (Threw ''network timeout'') 7 0 exLastAttempt) = Some t \<and>
      status (heap t ! 0) = failed \<and> 0 \<notin> set (pendingQueue t)) \<and>
   run [EvAddJob exBadOnce ''1'' ''a'' 1] emptyQueue = Some exBadQueued \<and>
   jobsToProcess exBadQueued = [0] \<and>
   validateJobData (heap exBadQueued ! 0) = Inl ''Invalid recipient address'' \<and>
   isRetryableError ''Invalid recipient address'' \<and>
   attempts (heap exBadQueued ! 0) = 0 \<and> maxAttempts (heap exBadQueued ! 0) = 1 \<and>
   status (heap (processNextJobs 3 (\<lambda>_. 0) exBadQueued) ! 0) = failed \<and>
   attempts (heap (processNextJobs 3 (\<lambda>_. 0) exBadQueued) ! 0) = 1 \<and>
   (\<exists>d. map_of (deadLetterQueue (processNextJobs 3 (\<lambda>_. 0) exBadQueued)) ''job_1_a'' = Some d \<and>
      status d = failed \<and> attempts d = 1) \<and>
   0 \<notin> set (pendingQueue (processNextJobs 3 (\<lambda>_. 0) exBadQueued)) \<and>
   0 \<notin> set (awaiting (processNextJobs 3 (\<lambda>_. 0) exBadQueued)) \<and>
   filter (\<lambda>t. fst t = 0) (timers (processNextJobs 3 (\<lambda>_. 0) exBadQueued)) = [] \<and>
   (\<exists>t. run [EvTick 5 (\<lambda>_. 0)] (processNextJobs 3 (\<lambda>_. 0) exBadQueued) = Some t \<and>
      status (heap t ! 0) = failed \<and> 0 \<notin> set (pendingQueue t)) \<and>
   status (heap (processJob 0 3 0 exBadQueued) ! 0) = failed \<and>
   (\<exists>d. map_of (deadLetterQueue (processJob 0 3 0 exBadQueued)) ''job_1_a'' = Some d \<and>
      status d = failed \<and> attempts d = 1) \<and>
   timers (processJob 0 3 0 exBadQueued) = []"
proof -
  have "run exTwoTimeouts emptyQueue \<noteq> None"
    by code_simp
  then have run2: "run exTwoTimeouts emptyQueue = Some exSecondRetry"
    by (auto simp: exSecondRetry_def)
  have "run (exTwoTimeouts @ [EvTick 6 (\<lambda>_. 0)]) emptyQueue \<noteq> None"
    by code_simp
  then have run3: "run (exTwoTimeouts @ [EvTick 6 (\<lambda>_. 0)]) emptyQueue = Some exLastAttempt"
    by (auto simp: exLastAttempt_def)
  have run_snoc: "run (xs @ [e]) s = (case run xs s of None \<Rightarrow> None | Some t \<Rightarrow> step e t)"
    for xs e s
    by (induction xs arbitrary: s) (auto split: option.splits)
  have stp: "step (EvTick 6 (\<lambda>_. 0)) exSecondRetry = Some exLastAttempt"
    using run2 run3 by (simp add: run_snoc)
  have facts: "pendingQueue exSecondRetry = [0]" "maxAttempts (heap exSecondRetry ! 0) = 3"
    "attempts (heap exSecondRetry ! 0) = 2" "jobsToProcess exSecondRetry = [0]"
    "length (heap exSecondRetry) = 1" "awaiting exLastAttempt = [0]"
    "maxAttempts (heap exLastAttempt ! 0) = 3" "jobId (heap exLastAttempt ! 0) = ''job_1_a''"
    "timers exLastAttempt = []"
    by code_simp+
  define after1 where
    "after1 = the (run [EvTick 9 (\<lambda>_. 0)] (resumeJob 0 (Threw ''network timeout'') 7 0 exLastAttempt))"
  have "run [EvTick 9 (\<lambda>_. 0)] (resumeJob 0 (Threw ''network timeout'') 7 0 exLastAttempt) \<noteq> None"
    by code_simp
  then have run4: "run [EvTick 9 (\<lambda>_. 0)] (resumeJob 0 (Threw ''network timeout'') 7 0 exLastAttempt)
      = Some after1"
    by (auto simp: after1_def)
  note pend = attempts_never_exceed_maxAttempts
      [where es = exTwoTimeouts and s = exSecondRetry and r = 0 and e = "EvTick 6 (\<lambda>_. 0)"
        and s' = exLastAttempt]
  note last = attempts_never_exceed_maxAttempts
      [where es = "exTwoTimeouts @ [EvTick 6 (\<lambda>_. 0)]" and s = exLastAttempt and r = 0
        and m = "''network timeout''" and now = 7 and jitter = 0
        and es' = "[EvTick 9 (\<lambda>_. 0)]" and s'' = after1]
  have a3: "attempts (heap exLastAttempt ! 0) = attempts (heap exSecondRetry ! 0) +
      (case EvTick 6 (\<lambda>_. 0) of EvTick now jit \<Rightarrow> if 0 \<in> set (jobsToProcess exSecondRetry) then 1 else 0
       | _ \<Rightarrow> 0)"
    using pend run2 stp facts(5) by simp
  then have a3': "attempts (heap exLastAttempt ! 0) = 3"
    by (simp add: facts)
  have ge: "int (attempts (heap exLastAttempt ! 0)) \<ge> maxAttempts (heap exLastAttempt ! 0)"
    by (simp add: a3' facts)
  have aw: "0 \<in> set (awaiting exLastAttempt)"
    by (simp add: facts)
  have async: "status (heap (resumeJob 0 (Threw ''network timeout'') 7 0 exLastAttempt) ! 0) = failed"
    "\<exists>d. map_of (deadLetterQueue (resumeJob 0 (Threw ''network timeout'') 7 0 exLastAttempt))
        (jobId (heap exLastAttempt ! 0)) = Some d \<and> status d = failed \<and>
        jobId d = jobId (heap exLastAttempt ! 0) \<and> attempts d = attempts (heap exLastAttempt ! 0)"
    "0 \<notin> set (pendingQueue (resumeJob 0 (Threw ''network timeout'') 7 0 exLastAttempt))"
    "timers (resumeJob 0 (Threw ''network timeout'') 7 0 exLastAttempt) = timers exLastAttempt"
    "status (heap after1 ! 0) = failed" "0 \<notin> set (pendingQueue after1)"
    using last run3 aw ge run4 by blast+
  have part1: "run exTwoTimeouts emptyQueue = Some exSecondRetry \<and>
   pendingQueue exSecondRetry = [0] \<and> maxAttempts (heap exSecondRetry ! 0) = 3 \<and>
   attempts (heap exSecondRetry ! 0) = 2 \<and>
   step (EvTick 6 (\<lambda>_. 0)) exSecondRetry = Some exLastAttempt \<and>
   jobsToProcess exSecondRetry = [0] \<and>
   attempts (heap exLastAttempt ! 0) = 3 \<and>
   run (exTwoTimeouts @ [EvTick 6 (\<lambda>_. 0)]) emptyQueue = Some exLastAttempt \<and>
   awaiting exLastAttempt = [0] \<and>
   int (attempts (heap exLastAttempt ! 0)) \<ge> maxAttempts (heap exLastAttempt ! 0)"
    using run2 run3 stp facts a3' ge by simp
  have part2: "status (heap (resumeJob 0 (Threw ''network timeout'') 7 0 exLastAttempt) ! 0) = failed \<and>
   (\<exists>d. map_of (deadLetterQueue (resumeJob 0 (Threw ''network timeout'') 7 0 exLastAttempt)) ''job_1_a'' =
      Some d \<and> status d = failed \<and> attempts d = 3) \<and>
   0 \<notin> set (pendingQueue (resumeJob 0 (Threw ''network timeout'') 7 0 exLastAttempt)) \<and>
   timers (resumeJob 0 (Threw ''network timeout'') 7 0 exLastAttempt) = [] \<and>
   (\<exists>t. run [EvTick 9 (\<lambda>_. 0)] (resumeJob 0 (Threw ''network timeout'') 7 0 exLastAttempt) = Some t \<and>
      status (heap t ! 0) = failed \<and> 0 \<notin> set (pendingQueue t))"
    using async run4 unfolding facts(8,9) a3' by blast
  have "run [EvAddJob exBadOnce ''1'' ''a'' 1] emptyQueue \<noteq> None"
    by code_simp
  then have run5: "run [EvAddJob exBadOnce ''1'' ''a'' 1] emptyQueue = Some exBadQueued"
    by (auto simp: exBadQueued_def)
  have bfacts: "jobsToProcess exBadQueued = [0]"
    "validateJobData (heap exBadQueued ! 0) = Inl ''Invalid recipient address''"
    "isRetryableError ''Invalid recipient address''"
    "attempts (heap exBadQueued ! 0) = 0" "maxAttempts (heap exBadQueued ! 0) = 1"
    "jobId (heap exBadQueued ! 0) = ''job_1_a''" "timers exBadQueued = []"
    "length (heap exBadQueued) = 1" "processingJobs exBadQueued = []"
    "deadLetterQueue exBadQueued = []"
    by code_simp+
  define after2 where
    "after2 = the (run [EvTick 5 (\<lambda>_. 0)] (processNextJobs 3 (\<lambda>_. 0) exBadQueued))"
  have "run [EvTick 5 (\<lambda>_. 0)] (processNextJobs 3 (\<lambda>_. 0) exBadQueued) \<noteq> None"
    by code_simp
  then have run6: "run [EvTick 5 (\<lambda>_. 0)] (processNextJobs 3 (\<lambda>_. 0) exBadQueued) = Some after2"
    by (auto simp: after2_def)
  note inst = attempts_never_exceed_maxAttempts
      [where es = "[EvAddJob exBadOnce ''1'' ''a'' 1]" and s = exBadQueued and r = 0
        and m = "''Invalid recipient address''" and now = 3 and jit = "\<lambda>_. 0" and jitter = 0
        and es' = "[EvTick 5 (\<lambda>_. 0)]" and s'' = after2]
  have in0: "0 \<in> set (jobsToProcess exBadQueued)"
    by (simp add: bfacts)
  have last1: "int (attempts (heap exBadQueued ! 0)) + 1 \<ge> maxAttempts (heap exBadQueued ! 0)"
    by (simp add: bfacts)
  have sync: "status (heap (processNextJobs 3 (\<lambda>_. 0) exBadQueued) ! 0) = failed"
    "attempts (heap (processNextJobs 3 (\<lambda>_. 0) exBadQueued) ! 0) = attempts (heap exBadQueued ! 0) + 1"
    "\<exists>d. map_of (deadLetterQueue (processNextJobs 3 (\<lambda>_. 0) exBadQueued))
        (jobId (heap exBadQueued ! 0)) = Some d \<and> status d = failed \<and>
        jobId d = jobId (heap exBadQueued ! 0) \<and> attempts d = attempts (heap exBadQueued ! 0) + 1"
    "0 \<notin> set (pendingQueue (processNextJobs 3 (\<lambda>_. 0) exBadQueued))"
    "0 \<notin> set (awaiting (processNextJobs 3 (\<lambda>_. 0) exBadQueued))"
    "filter (\<lambda>t. fst t = 0) (timers (processNextJobs 3 (\<lambda>_. 0) exBadQueued)) =
       filter (\<lambda>t. fst t = 0) (timers exBadQueued)"
    "status (heap after2 ! 0) = failed" "0 \<notin> set (pendingQueue after2)"
    using inst run5 in0 bfacts(2) last1 run6 by blast+
  have pre: "0 < length (heap exBadQueued)"
    "jobId (heap exBadQueued ! 0) \<notin> set (processingJobs exBadQueued)"
    "length (deadLetterQueue exBadQueued) \<le> deadLetterCapacity"
    by (simp_all add: bfacts)
  have call: "status (heap (processJob 0 3 0 exBadQueued) ! 0) = failed"
    "\<exists>d. map_of (deadLetterQueue (processJob 0 3 0 exBadQueued))
        (jobId (heap exBadQueued ! 0)) = Some d \<and> status d = failed \<and>
        jobId d = jobId (heap exBadQueued ! 0) \<and> attempts d = attempts (heap exBadQueued ! 0) + 1"
    "timers (processJob 0 3 0 exBadQueued) = timers exBadQueued"
    using inst pre bfacts(2) last1 by blast+
  have part3: "run [EvAddJob exBadOnce ''1'' ''a'' 1] emptyQueue = Some exBadQueued \<and>
   jobsToProcess exBadQueued = [0] \<and>
   validateJobData (heap exBadQueued ! 0) = Inl ''Invalid recipient address'' \<and>
   isRetryableError ''Invalid recipient address'' \<and>
   attempts (heap exBadQueued ! 0) = 0 \<and> maxAttempts (heap exBadQueued ! 0) = 1"
    using run5 bfacts by simp
  have part4: "status (heap (processNextJobs 3 (\<lambda>_. 0) exBadQueued) ! 0) = failed \<and>
   attempts (heap (processNextJobs 3 (\<lambda>_. 0) exBadQueued) ! 0) = 1 \<and>
   (\<exists>d. map_of (deadLetterQueue (processNextJobs 3 (\<lambda>_. 0) exBadQueued)) ''job_1_a'' = Some d \<and>
      status d = failed \<and> attempts d = 1) \<and>
   0 \<notin> set (pendingQueue (processNextJobs 3 (\<lambda>_. 0) exBadQueued)) \<and>
   0 \<notin> set (awaiting (processNextJobs 3 (\<lambda>_. 0) exBadQueued)) \<and>
   filter (\<lambda>t. fst t = 0) (timers (processNextJobs 3 (\<lambda>_. 0) exBadQueued)) = [] \<and>
   (\<exists>t. run [EvTick 5 (\<lambda>_. 0)] (processNextJobs 3 (\<lambda>_. 0) exBadQueued) = Some t \<and>
      status (heap t ! 0) = failed \<and> 0 \<notin> set (pendingQueue t))"
  proof -
    have "attempts (heap (processNextJobs 3 (\<lambda>_. 0) exBadQueued) ! 0) = 1"
      using sync(2) unfolding bfacts(4) by simp
    moreover have "\<exists>d. map_of (deadLetterQueue (processNextJobs 3 (\<lambda>_. 0) exBadQueued)) ''job_1_a'' =
        Some d \<and> status d = failed \<and> attempts d = 1"
      using sync(3) unfolding bfacts(4,6) by auto
    moreover have "filter (\<lambda>t. fst t = 0) (timers (processNextJobs 3 (\<lambda>_. 0) exBadQueued)) = []"
      using sync(6) unfolding bfacts(7) by simp
    moreover have "\<exists>t. run [EvTick 5 (\<lambda>_. 0)] (processNextJobs 3 (\<lambda>_. 0) exBadQueued) = Some t \<and>
        status (heap t ! 0) = failed \<and> 0 \<notin> set (pendingQueue t)"
      using run6 sync(7,8) by blast
    ultimately show ?thesis
      using sync(1,4,5) by blast
  qed
  have part5: "status (heap (processJob 0 3 0 exBadQueued) ! 0) = failed \<and>
   (\<exists>d. map_of (deadLetterQueue (processJob 0 3 0 exBadQueued)) ''job_1_a'' = Some d \<and>
      status d = failed \<and> attempts d = 1) \<and>
   timers (processJob 0 3 0 exBadQueued) = []"
  proof -
    have "\<exists>d. map_of (deadLetterQueue (processJob 0 3 0 exBadQueued)) ''job_1_a'' = Some d \<and>
        status d = failed \<and> attempts d = 1"
      using call(2) unfolding bfacts(4,6) by auto
    moreover have "timers (processJob 0 3 0 exBadQueued) = []"
      using call(3) unfolding bfacts(7) .
    ultimately show ?thesis
      using call(1) by blast
  qed
  show ?thesis
    using part1 part2 part3 part4 part5 by blast
qed

section \<open>Error classification\<close>




section \<open>Submission\<close>

text \<open>
  C1 says that a submission whose payload does not match its kind is rejected before any
  state is created. \<open>addJob\<close> has no such check: a submission whose recipient is not an
  address gets a job id, a record in the main store and a place in the pending queue,
  although its payload does not pass \<open>validateJobData\<close>.
\<close>

theorem addJob_rejects_invalid_payload_counterexample:
  "\<not> isAddress (address (in_data exBadInput)) \<and>
   validateJobData (heap exBadSubmitted ! 0) = Inl ''Invalid recipient address'' \<and>
   fst (addJob exBadInput ''1'' ''a'' 1 emptyQueue) = ''job_1_a'' \<and>
   map_of (jobs exBadSubmitted) ''job_1_a'' = Some 0 \<and>
   pendingQueue exBadSubmitted = [0] \<and>
   length (heap exBadSubmitted) = 1 \<and>
   jobs emptyQueue = [] \<and> pendingQueue emptyQueue = []"
  by code_simp

text \<open>
  C1, as the code has it. \<open>addJob\<close> does not look at the payload: for every payload,
  well-shaped or not, it stores a job record under a new id, appends the job to the
  pending queue and returns the id. The shape is checked by \<open>validateJobData\<close> at the
  start of each execution attempt: a recipient that is not \<open>0x\<close> followed by 40 hex
  digits gives \<open>Invalid recipient address\<close>, a token claim whose token address is missing
  or not of that form gives \<open>Invalid token address\<close>, and the attempt then fails through
  the \<open>catch\<close> block like any other execution failure.
\<close>

theorem addJob_always_creates_job_validation_at_execution:
  "fst (addJob jobData ts rnd now s) = generateJobId ts rnd \<and>
   map_of (jobs (snd (addJob jobData ts rnd now s))) (generateJobId ts rnd) = Some (length (heap s)) \<and>
   pendingQueue (snd (addJob jobData ts rnd now s)) = pendingQueue s @ [length (heap s)] \<and>
   jdata (heap (snd (addJob jobData ts rnd now s)) ! length (heap s)) = in_data jobData \<and>
   jtype (heap (snd (addJob jobData ts rnd now s)) ! length (heap s)) = in_type jobData \<and>
   status (heap (snd (addJob jobData ts rnd now s)) ! length (heap s)) = pending \<and>
   (validateJobData job = Inl ''Invalid recipient address'' \<longleftrightarrow> \<not> isAddress (address (jdata job))) \<and>
   (validateJobData job = Inl ''Invalid token address'' \<longleftrightarrow>
      isAddress (address (jdata job)) \<and> jtype job = TOKEN_CLAIM \<and>
      (\<forall>t. tokenAddress (jdata job) = Some t \<longrightarrow> \<not> isAddress t)) \<and>
   (validateJobData job = Inr () \<longleftrightarrow>
      isAddress (address (jdata job)) \<and>
      (jtype job = TOKEN_CLAIM \<longrightarrow> (\<exists>t. tokenAddress (jdata job) = Some t \<and> isAddress t))) \<and>
   (r < length (heap s) \<and> jobId (heap s ! r) \<notin> set (processingJobs s) \<and>
    validateJobData (heap s ! r) = Inl m \<longrightarrow>
      processJob r now' jitter s =
        handleFailure r m now' jitter
          (s\<lparr>heap := (heap s)[r := (heap s ! r)\<lparr>status := processing, processedAt := Some now',
             updatedAt := now', attempts := attempts (heap s ! r) + 1\<rparr>]\<rparr>))"
proof -
  have stored: "map_of (jobs (snd (addJob jobData ts rnd now s))) (generateJobId ts rnd) =
      Some (length (heap s))"
    by (simp add: update_conv')
  have v1: "validateJobData job = Inl ''Invalid recipient address'' \<longleftrightarrow> \<not> isAddress (address (jdata job))"
    using isAddress_nonempty [of "address (jdata job)"]
    by (auto simp: validateJobData_def split: option.splits)
  have v2: "validateJobData job = Inl ''Invalid token address'' \<longleftrightarrow>
      isAddress (address (jdata job)) \<and> jtype job = TOKEN_CLAIM \<and>
      (\<forall>t. tokenAddress (jdata job) = Some t \<longrightarrow> \<not> isAddress t)"
    using isAddress_nonempty [of "address (jdata job)"] isAddress_nonempty
    by (auto simp: validateJobData_def split: option.splits)
  have v3: "validateJobData job = Inr () \<longleftrightarrow>
      isAddress (address (jdata job)) \<and>
      (jtype job = TOKEN_CLAIM \<longrightarrow> (\<exists>t. tokenAddress (jdata job) = Some t \<and> isAddress t))"
    using isAddress_nonempty [of "address (jdata job)"] isAddress_nonempty
    by (auto simp: validateJobData_def split: option.splits)
  show ?thesis
    using stored v1 v2 v3 processJob_invalid [of r s m now' jitter]
    by (simp add: addJob_payload addJob_heap_new)
qed

theorem addJob_always_creates_job_validation_at_execution_witness:
  "\<not> isAddress (address (in_data exBadInput)) \<and>
   fst (addJob exBadInput ''1'' ''a'' 1 emptyQueue) = ''job_1_a'' \<and>
   map_of (jobs exBadSubmitted) ''job_1_a'' = Some 0 \<and>
   pendingQueue exBadSubmitted = [0] \<and>
   0 < length (heap exBadSubmitted) \<and>
   jobId (heap exBadSubmitted ! 0) \<notin> set (processingJobs exBadSubmitted) \<and>
   validateJobData (heap exBadSubmitted ! 0) = Inl ''Invalid recipient address'' \<and>
   processJob 0 2 0 exBadSubmitted =
     handleFailure 0 ''Invalid recipient address'' 2 0
       (exBadSubmitted\<lparr>heap := (heap exBadSubmitted)[0 := (heap exBadSubmitted ! 0)\<lparr>status := processing,
          processedAt := Some 2, updatedAt := 2,
          attempts := attempts (heap exBadSubmitted ! 0) + 1\<rparr>]\<rparr>)"
proof -
  have bad: "\<not> isAddress (address (in_data exBadInput))"
    by code_simp
  have facts: "generateJobId ''1'' ''a'' = ''job_1_a''" "length (heap emptyQueue) = 0"
    "pendingQueue emptyQueue = []" "length (heap exBadSubmitted) = 1"
    "jobId (heap exBadSubmitted ! 0) \<notin> set (processingJobs exBadSubmitted)"
    by code_simp+
  note sub = addJob_always_creates_job_validation_at_execution
      [of exBadInput "''1''" "''a''" 1 emptyQueue "heap exBadSubmitted ! 0"]
  note run = addJob_always_creates_job_validation_at_execution
      [of _ _ _ _ exBadSubmitted "heap exBadSubmitted ! 0" 0 "''Invalid recipient address''" 2 0]
  have data: "jdata (heap exBadSubmitted ! 0) = in_data exBadInput"
    using sub unfolding exBadSubmitted_def facts(2) by blast
  then have inv: "validateJobData (heap exBadSubmitted ! 0) = Inl ''Invalid recipient address''"
    using run bad by simp
  have r: "0 < length (heap exBadSubmitted)"
    by (simp add: facts)
  have "processJob 0 2 0 exBadSubmitted =
     handleFailure 0 ''Invalid recipient address'' 2 0
       (exBadSubmitted\<lparr>heap := (heap exBadSubmitted)[0 := (heap exBadSubmitted ! 0)\<lparr>status := processing,
          processedAt := Some 2, updatedAt := 2,
          attempts := attempts (heap exBadSubmitted ! 0) + 1\<rparr>]\<rparr>)"
    using run r facts(5) inv by blast
  moreover have "fst (addJob exBadInput ''1'' ''a'' 1 emptyQueue) = ''job_1_a''"
    "map_of (jobs exBadSubmitted) ''job_1_a'' = Some 0" "pendingQueue exBadSubmitted = [0]"
    using sub unfolding exBadSubmitted_def facts(1,2,3) by (simp_all add: update_conv')
  ultimately show ?thesis
    using bad r facts(5) inv by blast
qed

end
